theory Spec2Isabelle
  imports Complex_Main "HOL-Library.Word"
begin

unbundle bit_operations_syntax

section \<open>The filter of bloom.c\<close>

text \<open>
  The two result macros, which bloom.c takes from bloom.h. The code only ever tells the
  two apart, so they are the two values of a datatype.
\<close>

datatype status = BLOOM_SUCCESS | BLOOM_FAILURE

text \<open>
  Where C leaves the behaviour undefined the embedding returns a fault instead of a value:
  a read or write outside an array, a remainder by zero, a call through a null pointer,
  an overflowing signed increment, a conversion of an out-of-range double to an integer,
  the use of a variable that a failed \<^verbatim>\<open>sscanf\<close> left unset.
\<close>

datatype fault =
    OutOfBounds
  | DivisionByZero
  | NullDereference
  | SignedOverflow
  | FloatToInt
  | Uninitialised

text \<open>
  A hash function of the plug-in type \<^verbatim>\<open>uint64_t* (*)(int, char*)\<close>: the result array is
  the list of its elements. A C string is the list of its characters before the
  terminating zero.
\<close>

type_synonym HashFunction = "int \<Rightarrow> string \<Rightarrow> 64 word list"

text \<open>
  The open \<^verbatim>\<open>FILE\<close> behind a filter on disk. The functions modelled here write one thing
  to it, the insert counter of the trailer, so that slot is what the model keeps of it.
\<close>

datatype FILE = Trailer (trailer_elements_added: "64 word")

text \<open>
  \<^verbatim>\<open>struct bloom_filter\<close>, field by field, with the types its uses in bloom.c show (the
  declaration is in bloom.h) as words:
  \<^verbatim>\<open>uint64_t\<close> and \<^verbatim>\<open>long\<close> are 64 bits wide, \<^verbatim>\<open>unsigned int\<close> 32, \<^verbatim>\<open>short\<close> 16, and
  the \<^verbatim>\<open>float\<close> is kept as its 32-bit pattern. The array \<^verbatim>\<open>bloom\<close> points to is the
  list of its bytes; the null pointer is the empty list, and \<^verbatim>\<open>None\<close> for the function
  pointer and the file pointer.
\<close>

record BloomFilter =
  estimated_elements :: "64 word"
  false_positive_probability :: "32 word"
  number_hashes :: "32 word"
  number_bits :: "64 word"
  bloom :: "8 word list"
  bloom_length :: "64 word"
  elements_added :: "64 word"
  hash_function :: "HashFunction option"
  is_on_disk :: "16 word"
  filepointer :: "FILE option"
  filesize :: "64 word"

subsection \<open>Floating point and the libraries\<close>

text \<open>
  What the code takes from outside the repository: the rounding of double arithmetic, the
  functions \<^verbatim>\<open>log\<close>, \<^verbatim>\<open>exp\<close> and \<^verbatim>\<open>pow\<close> of the C library, the conversion of a double
  to \<^verbatim>\<open>float\<close>, and OpenSSL's MD5 digest (\<^verbatim>\<open>MD5_Init\<close>, \<^verbatim>\<open>MD5_Update\<close>, \<^verbatim>\<open>MD5_Final\<close> on
  one buffer). They are parameters of the model. A finite double is the real number it
  stands for; \<open>rnd\<close> takes the exact result of an operation to the double that is
  returned. Nothing is assumed of them here: \<open>fpu_ok\<close> below states the accuracy the
  theorems about numbers need.
\<close>

record platform =
  rnd :: "real \<Rightarrow> real"
  d_log :: "real \<Rightarrow> real"
  d_exp :: "real \<Rightarrow> real"
  d_pow :: "real \<Rightarrow> real \<Rightarrow> real"
  f_rnd :: "real \<Rightarrow> real"
  MD5 :: "8 word list \<Rightarrow> 8 word list"

definition d_mul :: "platform \<Rightarrow> real \<Rightarrow> real \<Rightarrow> real" where
  "d_mul env a b = rnd env (a * b)"

definition d_div :: "platform \<Rightarrow> real \<Rightarrow> real \<Rightarrow> real" where
  "d_div env a b = rnd env (a / b)"

definition d_sub :: "platform \<Rightarrow> real \<Rightarrow> real \<Rightarrow> real" where
  "d_sub env a b = rnd env (a - b)"

definition d_of_int :: "platform \<Rightarrow> int \<Rightarrow> real" where
  "d_of_int env i = rnd env (of_int i)"

text \<open>
  The accuracy of the platform: every operation is within a relative error of \<open>2\<^sup>-\<^sup>2\<^sup>0\<close> of
  the exact result on the stated ranges, and integers up to \<open>2\<^sup>5\<^sup>3\<close> convert exactly.
  IEEE-754 doubles with a C library accurate to an ulp are well within it.
\<close>

definition fpu_ok :: "platform \<Rightarrow> bool" where
  "fpu_ok env \<longleftrightarrow>
     (\<forall>x. 1 / 2 ^ 64 \<le> \<bar>x\<bar> \<and> \<bar>x\<bar> \<le> 2 ^ 64 \<longrightarrow> \<bar>rnd env x - x\<bar> \<le> \<bar>x\<bar> / 2 ^ 20)
   \<and> (\<forall>i :: int. \<bar>i\<bar> \<le> 2 ^ 53 \<longrightarrow> rnd env (of_int i) = of_int i)
   \<and> (\<forall>x. 1 / 2 ^ 64 \<le> x \<and> x \<le> 2 ^ 64 \<longrightarrow> \<bar>d_log env x - ln x\<bar> \<le> \<bar>ln x\<bar> / 2 ^ 20)
   \<and> (\<forall>x. \<bar>x\<bar> \<le> 32 \<longrightarrow> \<bar>d_exp env x - exp x\<bar> \<le> exp x / 2 ^ 20)
   \<and> (\<forall>x n. 1 / 2 \<le> \<bar>x\<bar> \<and> \<bar>x\<bar> \<le> 2 \<and> n \<le> 32 \<longrightarrow>
          \<bar>d_pow env x (real n) - x ^ n\<bar> \<le> \<bar>x ^ n\<bar> / 2 ^ 20)
   \<and> (\<forall>x. 1 / 2 ^ 64 \<le> \<bar>x\<bar> \<and> \<bar>x\<bar> \<le> 2 ^ 64 \<longrightarrow> \<bar>f_rnd env x - x\<bar> \<le> \<bar>x\<bar> / 2 ^ 20)"

text \<open>The value of a \<^verbatim>\<open>float\<close>, decoded from its IEEE-754 binary32 pattern.\<close>

datatype fpval = NaN | PInf | NInf | Finite real

definition float_val :: "32 word \<Rightarrow> fpval" where
  "float_val w =
     (let s = bit w 31;
          e = unat (drop_bit 23 w AND 0xFF);
          f = unat (w AND 0x7FFFFF)
      in if e = 255 then (if f = 0 then (if s then NInf else PInf) else NaN)
         else Finite ((if s then - 1 else 1) *
                (if e = 0 then real f / 2 ^ 149 else real (2 ^ 23 + f) * 2 ^ e / 2 ^ 150)))"

text \<open>
  The comparisons \<^verbatim>\<open>x <= c\<close> and \<^verbatim>\<open>x >= c\<close> of a float with a double constant. A
  comparison with a NaN is false.
\<close>

definition f_le :: "fpval \<Rightarrow> real \<Rightarrow> bool" where
  "f_le x c = (case x of NaN \<Rightarrow> False | PInf \<Rightarrow> False | NInf \<Rightarrow> True | Finite r \<Rightarrow> r \<le> c)"

definition f_ge :: "fpval \<Rightarrow> real \<Rightarrow> bool" where
  "f_ge x c = (case x of NaN \<Rightarrow> False | PInf \<Rightarrow> True | NInf \<Rightarrow> False | Finite r \<Rightarrow> c \<le> r)"

text \<open>
  \<^verbatim>\<open>log\<close> of a float promoted to double. \<^verbatim>\<open>None\<close> stands for a result that is a NaN or
  an infinity: the logarithm of a NaN, of an infinity, of zero or of a negative number.
\<close>

definition c_log :: "platform \<Rightarrow> fpval \<Rightarrow> real option" where
  "c_log env x = (case x of Finite r \<Rightarrow> if 0 < r then Some (d_log env r) else None | _ \<Rightarrow> None)"

text \<open>\<^verbatim>\<open>ceil\<close> and \<^verbatim>\<open>round\<close> (halves away from zero); both are exact.\<close>

definition c_ceil :: "real \<Rightarrow> real" where
  "c_ceil x = of_int \<lceil>x\<rceil>"

definition c_round :: "real \<Rightarrow> real" where
  "c_round x = (if 0 \<le> x then of_int \<lfloor>x + 1 / 2\<rfloor> else of_int \<lceil>x - 1 / 2\<rceil>)"

text \<open>
  The conversion of a double to an integer type drops the fraction; it is undefined
  (\<^verbatim>\<open>None\<close>) when the integral part is outside the type.
\<close>

definition c_trunc :: "real \<Rightarrow> int" where
  "c_trunc x = (if 0 \<le> x then \<lfloor>x\<rfloor> else \<lceil>x\<rceil>)"

definition to_uint64 :: "real \<Rightarrow> 64 word option" where
  "to_uint64 x = (if 0 \<le> c_trunc x \<and> c_trunc x < 2 ^ 64 then Some (word_of_int (c_trunc x)) else None)"

definition to_uint32 :: "real \<Rightarrow> 32 word option" where
  "to_uint32 x = (if 0 \<le> c_trunc x \<and> c_trunc x < 2 ^ 32 then Some (word_of_int (c_trunc x)) else None)"

definition to_long :: "real \<Rightarrow> 64 word option" where
  "to_long x =
     (if - (2 ^ 63) \<le> c_trunc x \<and> c_trunc x < 2 ^ 63 then Some (word_of_int (c_trunc x)) else None)"

subsection \<open>Parameter derivation\<close>

definition LOG_TWO_SQUARED :: "platform \<Rightarrow> real" where
  "LOG_TWO_SQUARED env = rnd env 0.4804530139182"

text \<open>
  \<^verbatim>\<open>calculate_optimal_hashes\<close>. \<^verbatim>\<open>long n = bf->estimated_elements\<close> reads the counter as
  signed; \<^verbatim>\<open>-n\<close> overflows for the least \<^verbatim>\<open>long\<close>. When \<^verbatim>\<open>log(p)\<close> is a NaN or an
  infinity so is the quotient that is converted to \<^verbatim>\<open>m\<close>, and when \<^verbatim>\<open>n\<close> is zero the
  quotient that is rounded to \<^verbatim>\<open>k\<close> is. \<^verbatim>\<open>CHAR_LEN * 1.0\<close> is the double 8.
\<close>

definition calculate_optimal_hashes :: "platform \<Rightarrow> BloomFilter \<Rightarrow> fault + BloomFilter" where
  "calculate_optimal_hashes env bf =
     (let n = sint (estimated_elements bf);
          p = float_val (false_positive_probability bf)
      in if n = - (2 ^ 63) then Inl SignedOverflow
         else
           (case c_log env p of
              None \<Rightarrow> Inl FloatToInt
            | Some lp \<Rightarrow>
               (case to_uint64 (c_ceil (d_div env (d_mul env (d_of_int env (- n)) lp)
                                          (LOG_TWO_SQUARED env))) of
                  None \<Rightarrow> Inl FloatToInt
                | Some m \<Rightarrow>
                    (if n = 0 then Inl FloatToInt
                     else
                      (case to_uint32 (c_round (d_div env
                             (d_mul env (d_log env 2) (d_of_int env (uint m)))
                             (d_of_int env n))) of
                         None \<Rightarrow> Inl FloatToInt
                       | Some k \<Rightarrow>
                          (case to_long (c_ceil (d_div env (d_of_int env (uint m)) 8)) of
                             None \<Rightarrow> Inl FloatToInt
                           | Some num_pos \<Rightarrow>
                               Inr (bf\<lparr>number_hashes := k, number_bits := m,
                                       bloom_length := num_pos\<rparr>)))))))"

subsection \<open>The default hash function\<close>

text \<open>\<^verbatim>\<open>*(uint64_t *)digest\<close>: the first eight bytes, least significant first.\<close>

definition le_uint64 :: "8 word list \<Rightarrow> 64 word" where
  "le_uint64 digest = foldr (\<lambda>b w. ucast b OR push_bit 8 w) (take 8 digest) 0"

function md5_loop :: "platform \<Rightarrow> int \<Rightarrow> string \<Rightarrow> 8 word list \<Rightarrow> nat \<Rightarrow> 64 word list" where
  "md5_loop env num_hashes str digest i =
     (if int i < num_hashes then
        let digest' = MD5 env (if i = 0 then map of_char str else digest)
        in le_uint64 digest' # md5_loop env num_hashes str digest' (Suc i)
      else [])"
  by pat_completeness auto
termination
  by (relation "measure (\<lambda>(env, num_hashes, str, digest, i). nat num_hashes - i)") auto

definition md5_hash_default :: "platform \<Rightarrow> HashFunction" where
  "md5_hash_default env num_hashes str = md5_loop env num_hashes str [] 0"

definition bloom_filter_set_hash_function ::
    "platform \<Rightarrow> BloomFilter \<Rightarrow> HashFunction option \<Rightarrow> BloomFilter" where
  "bloom_filter_set_hash_function env bf hash_fn =
     bf\<lparr>hash_function :=
          Some (case hash_fn of None \<Rightarrow> md5_hash_default env | Some f \<Rightarrow> f)\<rparr>"

subsection \<open>Initialisation and destruction\<close>

text \<open>
  \<^verbatim>\<open>bloom_filter_init_alt\<close>. The unsigned \<^verbatim>\<open>estimated_elements <= 0\<close> holds for zero only,
  and no \<^verbatim>\<open>uint64_t\<close> is above \<^verbatim>\<open>UINT64_MAX\<close>. \<^verbatim>\<open>calloc\<close> is taken to succeed.
\<close>

definition bloom_filter_init_alt ::
    "platform \<Rightarrow> BloomFilter \<Rightarrow> 64 word \<Rightarrow> 32 word \<Rightarrow> HashFunction option
      \<Rightarrow> fault + status \<times> BloomFilter" where
  "bloom_filter_init_alt env bf estimated_elems false_positive_rate hash_fn =
     (if estimated_elems \<le> 0 \<or> uint estimated_elems > 2 ^ 64 - 1
         \<or> f_le (float_val false_positive_rate) 0 \<or> f_ge (float_val false_positive_rate) 1
      then Inr (BLOOM_FAILURE, bf)
      else
        case calculate_optimal_hashes env
               (bf\<lparr>estimated_elements := estimated_elems,
                   false_positive_probability := false_positive_rate\<rparr>) of
          Inl e \<Rightarrow> Inl e
        | Inr bf1 \<Rightarrow>
            Inr (BLOOM_SUCCESS,
                 (bloom_filter_set_hash_function env
                    (bf1\<lparr>bloom := replicate (unat (bloom_length bf1)) 0, elements_added := 0\<rparr>)
                    hash_fn)\<lparr>is_on_disk := 0\<rparr>))"

text \<open>
  \<^verbatim>\<open>bloom_filter_init_on_disk_alt\<close> as far as it works on the filter structure. From line
  59 on it creates the file, writes the placeholder and maps it (\<^verbatim>\<open>fopen\<close>,
  \<^verbatim>\<open>write_to_file\<close>, \<^verbatim>\<open>bloom_filter_import_on_disk_alt\<close>); there is no file system in the
  model, so what those lines make of the filter prepared so far is the parameter
  \<open>on_disk\<close>.
\<close>

definition bloom_filter_init_on_disk_alt ::
    "platform \<Rightarrow> (BloomFilter \<Rightarrow> string \<Rightarrow> HashFunction option \<Rightarrow> fault + status \<times> BloomFilter)
      \<Rightarrow> BloomFilter \<Rightarrow> 64 word \<Rightarrow> 32 word \<Rightarrow> string \<Rightarrow> HashFunction option
      \<Rightarrow> fault + status \<times> BloomFilter" where
  "bloom_filter_init_on_disk_alt env on_disk bf estimated_elems false_positive_rate filepath hash_fn =
     (if estimated_elems \<le> 0 \<or> uint estimated_elems > 2 ^ 64 - 1
         \<or> f_le (float_val false_positive_rate) 0 \<or> f_ge (float_val false_positive_rate) 1
      then Inr (BLOOM_FAILURE, bf)
      else
        case calculate_optimal_hashes env
               (bf\<lparr>estimated_elements := estimated_elems,
                   false_positive_probability := false_positive_rate\<rparr>) of
          Inl e \<Rightarrow> Inl e
        | Inr bf1 \<Rightarrow> on_disk (bf1\<lparr>elements_added := 0\<rparr>) filepath hash_fn)"

text \<open>
  \<^verbatim>\<open>bloom_filter_destroy\<close> frees the array, or closes the file (which must be open) and
  unmaps it, and resets every field but \<^verbatim>\<open>bloom_length\<close>.
\<close>

definition bloom_filter_destroy :: "BloomFilter \<Rightarrow> fault + status \<times> BloomFilter" where
  "bloom_filter_destroy bf =
     (if is_on_disk bf \<noteq> 0 \<and> filepointer bf = None then Inl NullDereference
      else
        Inr (BLOOM_SUCCESS,
             bf\<lparr>bloom := [], filepointer := None, elements_added := 0, estimated_elements := 0,
                false_positive_probability := 0, number_hashes := 0, number_bits := 0,
                hash_function := None, is_on_disk := 0, filesize := 0\<rparr>))"

subsection \<open>Clearing\<close>

text \<open>
  \<^verbatim>\<open>for (i = 0; i < bf->bloom_length; i++) bf->bloom[i] = 0;\<close> with \<^verbatim>\<open>long i\<close>: the
  comparison is signed.
\<close>

function clear_loop :: "BloomFilter \<Rightarrow> nat \<Rightarrow> fault + BloomFilter" where
  "clear_loop bf i =
     (if int i < sint (bloom_length bf) then
        if length (bloom bf) \<le> i then Inl OutOfBounds
        else clear_loop (bf\<lparr>bloom := (bloom bf)[i := 0]\<rparr>) (Suc i)
      else Inr bf)"
  by pat_completeness auto
termination
  by (relation "measure (\<lambda>(bf, i). nat (sint (bloom_length bf)) - i)") auto

definition bloom_filter_clear :: "BloomFilter \<Rightarrow> fault + status \<times> BloomFilter" where
  "bloom_filter_clear bf =
     (case clear_loop bf 0 of
        Inl e \<Rightarrow> Inl e
      | Inr bf1 \<Rightarrow> Inr (BLOOM_SUCCESS, bf1\<lparr>elements_added := 0\<rparr>))"

subsection \<open>Insertion and lookup with given hashes\<close>

text \<open>
  The macro \<^verbatim>\<open>check_bit(A,k)\<close>, that is \<^verbatim>\<open>A[k / 8] & (1 << (k % 8))\<close>. The shift is at
  most by 7, so the \<^verbatim>\<open>int\<close> the C expression yields is the byte computed here.
\<close>

definition check_bit :: "8 word list \<Rightarrow> 64 word \<Rightarrow> 8 word" where
  "check_bit A k = A ! unat (k div 8) AND push_bit (unat (k mod 8)) 1"

text \<open>
  The loop of \<^verbatim>\<open>bloom_filter_add_string_alt\<close>. Its counter is an \<^verbatim>\<open>int\<close> compared with
  the \<^verbatim>\<open>unsigned int\<close> number of hashes, so a count above \<^verbatim>\<open>INT_MAX\<close> ends in an
  overflowing increment.
\<close>

function add_loop :: "BloomFilter \<Rightarrow> 64 word list \<Rightarrow> nat \<Rightarrow> fault + BloomFilter" where
  "add_loop bf hashes i =
     (if i < unat (number_hashes bf) then
        if 2147483647 < i then Inl SignedOverflow
        else if length hashes \<le> i then Inl OutOfBounds
        else if number_bits bf = 0 then Inl DivisionByZero
        else
          let k = (hashes ! i) mod number_bits bf in
          if length (bloom bf) \<le> unat (k div 8) then Inl OutOfBounds
          else add_loop
                 (bf\<lparr>bloom := (bloom bf)[unat (k div 8) :=
                        bloom bf ! unat (k div 8) OR push_bit (unat (k mod 8)) 1]\<rparr>)
                 hashes (Suc i)
      else Inr bf)"
  by pat_completeness auto
termination
  by (relation "measure (\<lambda>(bf, hashes, i). unat (number_hashes bf) - i)") auto

text \<open>
  The write-through of the counter for a filter on disk:
  \<^verbatim>\<open>fseek(bf->filepointer, -12, SEEK_END); fwrite(&bf->elements_added, 8, 1, bf->filepointer);\<close>
\<close>

definition persist_elements_added :: "BloomFilter \<Rightarrow> fault + BloomFilter" where
  "persist_elements_added bf =
     (case filepointer bf of
        None \<Rightarrow> Inl NullDereference
      | Some fp \<Rightarrow> Inr (bf\<lparr>filepointer := Some (Trailer (elements_added bf))\<rparr>))"

definition bloom_filter_add_string_alt ::
    "BloomFilter \<Rightarrow> 64 word list \<Rightarrow> 32 word \<Rightarrow> fault + status \<times> BloomFilter" where
  "bloom_filter_add_string_alt bf hashes number_hashes_passed =
     (if number_hashes_passed < number_hashes bf then Inr (BLOOM_FAILURE, bf)
      else
        case add_loop bf hashes 0 of
          Inl e \<Rightarrow> Inl e
        | Inr bf1 \<Rightarrow>
            let bf2 = bf1\<lparr>elements_added := elements_added bf1 + 1\<rparr> in
            if is_on_disk bf2 = 1 then
              (case persist_elements_added bf2 of
                 Inl e \<Rightarrow> Inl e
               | Inr bf3 \<Rightarrow> Inr (BLOOM_SUCCESS, bf3))
            else Inr (BLOOM_SUCCESS, bf2))"

function check_loop :: "BloomFilter \<Rightarrow> 64 word list \<Rightarrow> nat \<Rightarrow> fault + status" where
  "check_loop bf hashes i =
     (if i < unat (number_hashes bf) then
        if 2147483647 < i then Inl SignedOverflow
        else if length hashes \<le> i then Inl OutOfBounds
        else if number_bits bf = 0 then Inl DivisionByZero
        else
          let k = (hashes ! i) mod number_bits bf in
          if length (bloom bf) \<le> unat (k div 8) then Inl OutOfBounds
          else if check_bit (bloom bf) k = 0 then Inr BLOOM_FAILURE
          else check_loop bf hashes (Suc i)
      else Inr BLOOM_SUCCESS)"
  by pat_completeness auto
termination
  by (relation "measure (\<lambda>(bf, hashes, i). unat (number_hashes bf) - i)") auto

definition bloom_filter_check_string_alt ::
    "BloomFilter \<Rightarrow> 64 word list \<Rightarrow> 32 word \<Rightarrow> fault + status" where
  "bloom_filter_check_string_alt bf hashes number_hashes_passed =
     (if number_hashes_passed < number_hashes bf then Inr BLOOM_FAILURE
      else check_loop bf hashes 0)"

subsection \<open>Insertion and lookup of a key\<close>

text \<open>
  \<^verbatim>\<open>bloom_filter_calculate_hashes\<close> calls through the function pointer; the
  \<^verbatim>\<open>unsigned int\<close> count becomes the \<^verbatim>\<open>int\<close> parameter of the hash function.
\<close>

definition bloom_filter_calculate_hashes ::
    "BloomFilter \<Rightarrow> string \<Rightarrow> 32 word \<Rightarrow> fault + 64 word list" where
  "bloom_filter_calculate_hashes bf str num_hashes =
     (case hash_function bf of
        None \<Rightarrow> Inl NullDereference
      | Some f \<Rightarrow> Inr (f (sint num_hashes) str))"

definition bloom_filter_add_string :: "BloomFilter \<Rightarrow> string \<Rightarrow> fault + status \<times> BloomFilter" where
  "bloom_filter_add_string bf str =
     (case bloom_filter_calculate_hashes bf str (number_hashes bf) of
        Inl e \<Rightarrow> Inl e
      | Inr hashes \<Rightarrow> bloom_filter_add_string_alt bf hashes (number_hashes bf))"

definition bloom_filter_check_string :: "BloomFilter \<Rightarrow> string \<Rightarrow> fault + status" where
  "bloom_filter_check_string bf str =
     (case bloom_filter_calculate_hashes bf str (number_hashes bf) of
        Inl e \<Rightarrow> Inl e
      | Inr hashes \<Rightarrow> bloom_filter_check_string_alt bf hashes (number_hashes bf))"

subsection \<open>The running estimate of the false positive rate\<close>

text \<open>
  \<^verbatim>\<open>int num = (bf->number_hashes * -1 * bf->elements_added);\<close> The first product is taken
  in \<^verbatim>\<open>unsigned int\<close>, the second in \<^verbatim>\<open>uint64_t\<close>, and the result is cut to the 32 bits
  of an \<^verbatim>\<open>int\<close>. (Were \<^verbatim>\<open>number_hashes\<close> a signed \<^verbatim>\<open>int\<close>, the same 32 bits would result.)

  When \<^verbatim>\<open>number_bits\<close> is zero the division is by \<^verbatim>\<open>0.0\<close>. A negative \<^verbatim>\<open>num\<close> gives minus
  infinity, \<^verbatim>\<open>exp\<close> of it is 0 and \<^verbatim>\<open>pow(1, k)\<close> is 1. A zero \<^verbatim>\<open>num\<close> gives a NaN, which
  stays one up to \<^verbatim>\<open>pow\<close>, and \<^verbatim>\<open>pow(NaN, 0)\<close> is 1. In the remaining cases the result is
  a NaN or an infinity, for which \<^verbatim>\<open>None\<close> stands.
\<close>

definition bloom_filter_current_false_positive_rate :: "platform \<Rightarrow> BloomFilter \<Rightarrow> real option" where
  "bloom_filter_current_false_positive_rate env bf =
     (let num = sint (ucast ((ucast (number_hashes bf * (- 1)) :: 64 word) * elements_added bf)
                        :: 32 word)
      in if number_bits bf = 0 then
           (if num < 0 \<or> number_hashes bf = 0 then Some 1 else None)
         else
           let d = d_div env (d_mul env (d_of_int env num) 1)
                     (d_mul env (d_of_int env (uint (number_bits bf))) 1);
               e = d_exp env d
           in Some (f_rnd env (d_pow env (d_sub env 1 e) (d_of_int env (uint (number_hashes bf))))))"

subsection \<open>Hexadecimal text\<close>

text \<open>
  \<^verbatim>\<open>sprintf\<close> with the conversions \<^verbatim>\<open>%02x\<close>, \<^verbatim>\<open>%016lx\<close> and \<^verbatim>\<open>%08x\<close>: the digits of the
  value, most significant first, padded with zeros on the left to the width.
\<close>

definition hex_digit :: "nat \<Rightarrow> char" where
  "hex_digit d = ''0123456789abcdef'' ! d"

function hex_of_nat :: "nat \<Rightarrow> string" where
  "hex_of_nat v = (if v < 16 then [hex_digit v] else hex_of_nat (v div 16) @ [hex_digit (v mod 16)])"
  by pat_completeness auto
termination
  by (relation "measure id") auto

definition sprintf_0x :: "nat \<Rightarrow> nat \<Rightarrow> string" where
  "sprintf_0x width v = replicate (width - length (hex_of_nat v)) (CHR ''0'') @ hex_of_nat v"

text \<open>
  Reading a hexadecimal number the way \<^verbatim>\<open>strtoull(s, NULL, 16)\<close> and the \<^verbatim>\<open>%x\<close> of
  \<^verbatim>\<open>sscanf\<close> do: white space is skipped, a sign and a prefix \<^verbatim>\<open>0x\<close> are accepted, and the
  number ends at the first character that is not a digit.
\<close>

definition hex_value :: "char \<Rightarrow> nat option" where
  "hex_value c =
     (let n = (of_char c :: nat)
      in if 48 \<le> n \<and> n \<le> 57 then Some (n - 48)
         else if 97 \<le> n \<and> n \<le> 102 then Some (n - 87)
         else if 65 \<le> n \<and> n \<le> 70 then Some (n - 55)
         else None)"

definition isspace :: "char \<Rightarrow> bool" where
  "isspace c \<longleftrightarrow> (of_char c :: nat) = 32 \<or> (9 \<le> (of_char c :: nat) \<and> (of_char c :: nat) \<le> 13)"

fun hex_digits :: "string \<Rightarrow> nat list" where
  "hex_digits [] = []"
| "hex_digits (c # cs) = (case hex_value c of None \<Rightarrow> [] | Some d \<Rightarrow> d # hex_digits cs)"

definition from_digits :: "nat list \<Rightarrow> nat" where
  "from_digits ds = foldl (\<lambda>a d. 16 * a + d) 0 ds"

definition skip_0x :: "string \<Rightarrow> string" where
  "skip_0x s =
     (case s of
        c0 # c1 # c2 # cs \<Rightarrow>
          if c0 = CHR ''0'' \<and> (c1 = CHR ''x'' \<or> c1 = CHR ''X'') \<and> hex_value c2 \<noteq> None
          then c2 # cs else s
      | _ \<Rightarrow> s)"

definition skip_sign :: "string \<Rightarrow> bool \<times> string" where
  "skip_sign s =
     (case s of
        [] \<Rightarrow> (False, [])
      | c # cs \<Rightarrow> if c = CHR ''-'' then (True, cs) else if c = CHR ''+'' then (False, cs) else (False, s))"

text \<open>The sign and the magnitude read, or \<^verbatim>\<open>None\<close> when there is no digit to read.\<close>

definition scan_hex :: "string \<Rightarrow> (bool \<times> nat) option" where
  "scan_hex s =
     (let (neg, s1) = skip_sign (dropWhile isspace s);
          ds = hex_digits (skip_0x s1)
      in if ds = [] then None else Some (neg, from_digits ds))"

definition strtoull_16 :: "string \<Rightarrow> 64 word" where
  "strtoull_16 s =
     (case scan_hex s of
        None \<Rightarrow> 0
      | Some (neg, v) \<Rightarrow>
          if 2 ^ 64 \<le> v then - 1 else if neg then - of_nat v else of_nat v)"

text \<open>\<^verbatim>\<open>sscanf(s, "%x", &t)\<close> into an \<^verbatim>\<open>unsigned int\<close>; \<^verbatim>\<open>None\<close> when nothing is stored.\<close>

definition sscanf_x :: "string \<Rightarrow> 32 word option" where
  "sscanf_x s =
     (case scan_hex s of
        None \<Rightarrow> None
      | Some (neg, v) \<Rightarrow> Some (if neg then - of_nat v else of_nat v))"

text \<open>
  \<^verbatim>\<open>sscanf(s, "%2hhx", &b)\<close> into an \<^verbatim>\<open>unsigned char\<close>: at most two characters are read
  after the white space.
\<close>

definition sscanf_2hhx :: "string \<Rightarrow> 8 word option" where
  "sscanf_2hhx s =
     (case scan_hex (take 2 (dropWhile isspace s)) of
        None \<Rightarrow> None
      | Some (neg, v) \<Rightarrow> Some (if neg then - of_nat v else of_nat v))"

subsection \<open>Export to and import from a hexadecimal string\<close>

text \<open>
  The loop of \<^verbatim>\<open>bloom_filter_export_hex_string\<close> over the bytes; its counter is a
  \<^verbatim>\<open>uint64_t\<close>, so \<^verbatim>\<open>bloom_length\<close> is read as unsigned. \<^verbatim>\<open>malloc\<close> is taken to succeed.
\<close>

function export_loop :: "BloomFilter \<Rightarrow> nat \<Rightarrow> fault + string" where
  "export_loop bf i =
     (if i < unat (bloom_length bf) then
        if length (bloom bf) \<le> i then Inl OutOfBounds
        else
          (case export_loop bf (Suc i) of
             Inl e \<Rightarrow> Inl e
           | Inr hex \<Rightarrow> Inr (sprintf_0x 2 (unat (bloom bf ! i)) @ hex))
      else Inr [])"
  by pat_completeness auto
termination
  by (relation "measure (\<lambda>(bf, i). unat (bloom_length bf) - i)") auto

definition bloom_filter_export_hex_string :: "BloomFilter \<Rightarrow> fault + string" where
  "bloom_filter_export_hex_string bf =
     (case export_loop bf 0 of
        Inl e \<Rightarrow> Inl e
      | Inr hex \<Rightarrow>
          Inr (hex @ sprintf_0x 16 (unat (estimated_elements bf))
                   @ sprintf_0x 16 (unat (elements_added bf))
                   @ sprintf_0x 8 (unat (false_positive_probability bf))))"

text \<open>
  The loop of \<^verbatim>\<open>bloom_filter_import_hex_string_alt\<close> over the bytes. \<^verbatim>\<open>hex + i * 2\<close> may
  point at the terminating zero, where \<^verbatim>\<open>sscanf\<close> finds nothing, but not beyond it. A
  byte for which nothing is read keeps the zero of \<^verbatim>\<open>calloc\<close>.
\<close>

function import_loop :: "BloomFilter \<Rightarrow> string \<Rightarrow> nat \<Rightarrow> fault + BloomFilter" where
  "import_loop bf hex i =
     (if i < unat (bloom_length bf) then
        if length hex < i * 2 \<or> length (bloom bf) \<le> i then Inl OutOfBounds
        else
          (case sscanf_2hhx (drop (i * 2) hex) of
             None \<Rightarrow> import_loop bf hex (Suc i)
           | Some b \<Rightarrow> import_loop (bf\<lparr>bloom := (bloom bf)[i := b]\<rparr>) hex (Suc i))
      else Inr bf)"
  by pat_completeness auto
termination
  by (relation "measure (\<lambda>(bf, hex, i). unat (bloom_length bf) - i)") auto

text \<open>
  \<^verbatim>\<open>bloom_filter_import_hex_string_alt\<close>. The three \<^verbatim>\<open>memcpy\<close> read the last 40
  characters of the string, which must be there.
\<close>

definition bloom_filter_import_hex_string_alt ::
    "platform \<Rightarrow> BloomFilter \<Rightarrow> string \<Rightarrow> HashFunction option \<Rightarrow> fault + status \<times> BloomFilter" where
  "bloom_filter_import_hex_string_alt env bf hex hash_fn =
     (let len = length hex
      in if len mod 2 \<noteq> 0 then Inr (BLOOM_FAILURE, bf)
         else if len < 40 then Inl OutOfBounds
         else
           let fpr = take 8 (drop (len - 8) hex);
               ins_els = take 16 (drop (len - 24) hex);
               est_els = take 16 (drop (len - 40) hex)
           in (case sscanf_x fpr of
                 None \<Rightarrow> Inl Uninitialised
               | Some t_fpr \<Rightarrow>
                   (case calculate_optimal_hashes env
                           (bloom_filter_set_hash_function env
                              (bf\<lparr>estimated_elements := strtoull_16 est_els,
                                  elements_added := strtoull_16 ins_els,
                                  false_positive_probability := t_fpr\<rparr>)
                              hash_fn) of
                      Inl e \<Rightarrow> Inl e
                    | Inr bf1 \<Rightarrow>
                        (case import_loop
                                (bf1\<lparr>bloom := replicate (unat (bloom_length bf1)) 0,
                                     is_on_disk := 0\<rparr>) hex 0 of
                           Inl e \<Rightarrow> Inl e
                         | Inr bf2 \<Rightarrow> Inr (BLOOM_SUCCESS, bf2)))))"

subsection \<open>Sequences of calls\<close>

text \<open>
  The calls a client makes on a filter between its initialisation and its destruction,
  and the filter they leave. The lookups, the export and the estimate take the filter
  by pointer and write nothing to it. The functions that move a filter to and from a
  file (\<^verbatim>\<open>bloom_filter_export\<close>, \<^verbatim>\<open>bloom_filter_import_alt\<close>,
  \<^verbatim>\<open>bloom_filter_import_on_disk_alt\<close> with \<^verbatim>\<open>write_to_file\<close> and \<^verbatim>\<open>read_from_file\<close>) and
  the printing \<^verbatim>\<open>bloom_filter_stats\<close> are outside the embedding.
\<close>

datatype operation =
    AddString string
  | AddStringAlt "64 word list" "32 word"
  | CheckString string
  | CheckStringAlt "64 word list" "32 word"
  | CurrentFalsePositiveRate
  | ExportHexString
  | Clear
  | Destroy

fun step :: "BloomFilter \<Rightarrow> operation \<Rightarrow> fault + BloomFilter" where
  "step bf (AddString str) = map_sum id snd (bloom_filter_add_string bf str)"
| "step bf (AddStringAlt hashes n) = map_sum id snd (bloom_filter_add_string_alt bf hashes n)"
| "step bf (CheckString str) = map_sum id (\<lambda>r. bf) (bloom_filter_check_string bf str)"
| "step bf (CheckStringAlt hashes n) =
     map_sum id (\<lambda>r. bf) (bloom_filter_check_string_alt bf hashes n)"
| "step bf CurrentFalsePositiveRate = Inr bf"
| "step bf ExportHexString = map_sum id (\<lambda>r. bf) (bloom_filter_export_hex_string bf)"
| "step bf Clear = map_sum id snd (bloom_filter_clear bf)"
| "step bf Destroy = map_sum id snd (bloom_filter_destroy bf)"

fun run :: "BloomFilter \<Rightarrow> operation list \<Rightarrow> fault + BloomFilter" where
  "run bf [] = Inr bf"
| "run bf (c # cs) = (case step bf c of Inl e \<Rightarrow> Inl e | Inr bf1 \<Rightarrow> run bf1 cs)"

subsection \<open>Notions for the proofs\<close>

text \<open>
  Bit \<open>k\<close> of a bit array is set; and every bit set in one array is set in another of
  the same length.
\<close>

definition bit_set :: "8 word list \<Rightarrow> 64 word \<Rightarrow> bool" where
  "bit_set A k \<longleftrightarrow> unat (k div 8) < length A \<and> bit (A ! unat (k div 8)) (unat (k mod 8))"

definition bits_le :: "8 word list \<Rightarrow> 8 word list \<Rightarrow> bool" where
  "bits_le A B \<longleftrightarrow> length A = length B \<and> (\<forall>j n. j < length A \<and> bit (A ! j) n \<longrightarrow> bit (B ! j) n)"

text \<open>
  A filter the operations run on without fault: there is at least one bit, the
  \<open>bloom_length\<close> bytes of the bit array are allocated and hold the \<open>number_bits\<close> bits,
  the hash function is set and returns as many hashes as it is asked for, their number
  fits an \<^verbatim>\<open>int\<close>, and a filter on disk has its file open.
\<close>

definition valid_filter :: "BloomFilter \<Rightarrow> bool" where
  "valid_filter bf \<longleftrightarrow>
     number_bits bf \<noteq> 0
   \<and> 0 \<le> sint (bloom_length bf)
   \<and> unat (number_bits bf) \<le> 8 * nat (sint (bloom_length bf))
   \<and> nat (sint (bloom_length bf)) \<le> length (bloom bf)
   \<and> unat (number_hashes bf) \<le> 2147483647
   \<and> (is_on_disk bf = 1 \<longrightarrow> filepointer bf \<noteq> None)
   \<and> (\<exists>f. hash_function bf = Some f
         \<and> (\<forall>str. unat (number_hashes bf) \<le> length (f (sint (number_hashes bf)) str)))"

text \<open>The calls that only read the filter.\<close>

fun reads_only :: "operation \<Rightarrow> bool" where
  "reads_only (CheckString str) = True"
| "reads_only (CheckStringAlt hashes n) = True"
| "reads_only CurrentFalsePositiveRate = True"
| "reads_only ExportHexString = True"
| "reads_only c = False"

text \<open>The inserts among the calls.\<close>

fun is_insert :: "operation \<Rightarrow> bool" where
  "is_insert (AddString str) = True"
| "is_insert (AddStringAlt hashes n) = True"
| "is_insert c = False"

text \<open>
  The estimate of the false positive rate as the specification words it:
  \<open>(1 - e\<^bsup>-k \<sqdot> elements_added / m\<^esup>)\<^sup>k\<close>.
\<close>

definition spec_false_positive_rate :: "BloomFilter \<Rightarrow> real" where
  "spec_false_positive_rate bf =
     (1 - exp (- (real (unat (number_hashes bf)) * real (unat (elements_added bf)))
                 / real (unat (number_bits bf)))) ^ unat (number_hashes bf)"

section \<open>Example filters\<close>

text \<open>
  A platform to evaluate examples on: arithmetic without rounding error, and a stand-in
  for the digest that is easy to compute. No theorem depends on the choice.
\<close>

definition toy_digest :: "8 word list \<Rightarrow> 8 word list" where
  "toy_digest bs = map (\<lambda>i. of_nat (31 * i + 7 * length bs) + sum_list bs) [0..<16]"

definition exact_platform :: platform where
  "exact_platform =
     \<lparr>rnd = (\<lambda>x. x), d_log = ln, d_exp = exp, d_pow = (\<lambda>x y. x ^ nat \<lfloor>y\<rfloor>),
      f_rnd = (\<lambda>x. x), MD5 = toy_digest\<rparr>"

text \<open>
  The state after \<^verbatim>\<open>bloom_filter_init(&bf, 100, 0.01)\<close>; \<open>0x3c23d70a\<close> is the
  \<^verbatim>\<open>float\<close> nearest to 0.01.
\<close>

definition fresh_100 :: BloomFilter where
  "fresh_100 =
     \<lparr>estimated_elements = 100, false_positive_probability = 0x3c23d70a,
      number_hashes = 7, number_bits = 959, bloom = replicate 120 0, bloom_length = 120,
      elements_added = 0, hash_function = Some (md5_hash_default exact_platform),
      is_on_disk = 0, filepointer = None, filesize = 0\<rparr>"

text \<open>The same filter with some bits set and one insert counted.\<close>

definition used_100 :: BloomFilter where
  "used_100 = fresh_100\<lparr>bloom := (replicate 120 0)[17 := 0x41, 99 := 0x80], elements_added := 1\<rparr>"

text \<open>
  The fields of a filter for 400000000 elements at a rate of 0.01 after 306783379 inserts.
  The contents of its 479252922 bytes play no part in what is proved of it.
\<close>

definition large_filter :: BloomFilter where
  "large_filter =
     \<lparr>estimated_elements = 400000000, false_positive_probability = 0x3c23d70a,
      number_hashes = 7, number_bits = 3834023370, bloom = replicate 479252922 0,
      bloom_length = 479252922, elements_added = 306783379,
      hash_function = Some (md5_hash_default exact_platform),
      is_on_disk = 0, filepointer = None, filesize = 0\<rparr>"


section \<open>Bits set by an insert\<close>

text \<open>The loops are unfolded one turn at a time, where a proof asks for it.\<close>

declare add_loop.simps [simp del] check_loop.simps [simp del] clear_loop.simps [simp del]
  md5_loop.simps [simp del] hex_of_nat.simps [simp del] export_loop.simps [simp del]
  import_loop.simps [simp del]

lemma unat_mod8_less: "unat ((k :: 64 word) mod 8) < 8"
  by (simp add: unat_mod) 

lemma check_bit_iff:
  "check_bit A k \<noteq> 0 \<longleftrightarrow> bit (A ! unat (k div 8)) (unat (k mod 8))"
proof -
  have "unat (k mod 8) < 8" by (rule unat_mod8_less)
  then show ?thesis
    by (simp add: check_bit_def push_bit_of_1 and_exp_eq_0_iff_not_bit)
qed

lemma bits_le_refl: "bits_le A A"
  by (simp add: bits_le_def)

lemma bits_le_trans: "bits_le A B \<Longrightarrow> bits_le B C \<Longrightarrow> bits_le A C"
  by (auto simp: bits_le_def)

lemma bits_le_update:
  "j < length A \<Longrightarrow> bits_le A (A[j := A ! j OR b])"
  by (auto simp: bits_le_def nth_list_update bit_or_iff)

lemma bit_set_mono: "bits_le A B \<Longrightarrow> bit_set A k \<Longrightarrow> bit_set B k"
  by (auto simp: bits_le_def bit_set_def)

lemma bit_set_update:
  "unat (k div 8) < length A \<Longrightarrow>
   bit_set (A[unat (k div 8) := A ! unat (k div 8) OR push_bit (unat (k mod 8)) 1]) k"
  using unat_mod8_less [of k]
  by (simp add: bit_set_def bit_or_iff push_bit_of_1 bit_exp_iff possible_bit_word)

lemma add_loop_fields:
  "add_loop bf hs i = Inr bf' \<Longrightarrow> bf' = bf\<lparr>bloom := bloom bf'\<rparr> \<and> bits_le (bloom bf) (bloom bf')"
proof (induction bf hs i rule: add_loop.induct)
  case (1 bf hashes i)
  show ?case
  proof (cases "i < unat (number_hashes bf)")
    case False
    with "1.prems" show ?thesis
      by (subst (asm) add_loop.simps) (simp add: bits_le_refl)
  next
    case True
    define k where "k = (hashes ! i) mod number_bits bf"
    define bf1 where "bf1 = bf\<lparr>bloom := (bloom bf)[unat (k div 8) :=
                        bloom bf ! unat (k div 8) OR push_bit (unat (k mod 8)) 1]\<rparr>"
    from "1.prems" True have c: "\<not> 2147483647 < i" "\<not> length hashes \<le> i" "number_bits bf \<noteq> 0"
      "\<not> length (bloom bf) \<le> unat (k div 8)" and r: "add_loop bf1 hashes (Suc i) = Inr bf'"
      by (subst (asm) add_loop.simps; simp add: Let_def k_def bf1_def split: if_splits)+
    from "1.IH" [OF True c(1-3) k_def c(4)] r
    have ih: "bf' = bf1\<lparr>bloom := bloom bf'\<rparr>" "bits_le (bloom bf1) (bloom bf')"
      by (simp_all add: bf1_def)
    have "bits_le (bloom bf) (bloom bf1)"
      using c(4) by (simp add: bf1_def bits_le_update)
    with ih show ?thesis
      by (auto simp: bf1_def intro: bits_le_trans)
  qed
qed

lemma add_loop_sets:
  "add_loop bf hs i = Inr bf' \<Longrightarrow> i \<le> j \<Longrightarrow> j < unat (number_hashes bf) \<Longrightarrow>
   j \<le> 2147483647 \<and> j < length hs \<and> number_bits bf \<noteq> 0
     \<and> bit_set (bloom bf') (hs ! j mod number_bits bf)"
proof (induction bf hs i rule: add_loop.induct)
  case (1 bf hashes i)
  from "1.prems" have True: "i < unat (number_hashes bf)" by simp
  define k where "k = (hashes ! i) mod number_bits bf"
  define bf1 where "bf1 = bf\<lparr>bloom := (bloom bf)[unat (k div 8) :=
                      bloom bf ! unat (k div 8) OR push_bit (unat (k mod 8)) 1]\<rparr>"
  from "1.prems"(1) True have c: "\<not> 2147483647 < i" "\<not> length hashes \<le> i" "number_bits bf \<noteq> 0"
    "\<not> length (bloom bf) \<le> unat (k div 8)" and r: "add_loop bf1 hashes (Suc i) = Inr bf'"
    by (subst (asm) add_loop.simps; simp add: Let_def k_def bf1_def split: if_splits)+
  show ?case
  proof (cases "j = i")
    case True
    have "bit_set (bloom bf1) k"
      using c(4) bit_set_update [of k "bloom bf"] by (simp add: bf1_def)
    moreover have "bits_le (bloom bf1) (bloom bf')"
      using add_loop_fields [OF r] by simp
    ultimately have "bit_set (bloom bf') k"
      by (rule bit_set_mono [rotated])
    with c True show ?thesis by (simp add: k_def)
  next
    case False
    with "1.prems" have "Suc i \<le> j" "j < unat (number_hashes bf1)"
      by (simp_all add: bf1_def)
    from "1.IH" [OF True c(1-3) k_def c(4), folded bf1_def, OF r this]
    show ?thesis by (simp add: bf1_def)
  qed
qed

lemma check_loop_success:
  assumes "\<And>j. i \<le> j \<Longrightarrow> j < unat (number_hashes bf) \<Longrightarrow>
             j \<le> 2147483647 \<and> j < length hs \<and> number_bits bf \<noteq> 0
               \<and> bit_set (bloom bf) (hs ! j mod number_bits bf)"
  shows "check_loop bf hs i = Inr BLOOM_SUCCESS"
  using assms
proof (induction bf hs i rule: check_loop.induct)
  case (1 bf hashes i)
  show ?case
  proof (cases "i < unat (number_hashes bf)")
    case False
    then show ?thesis by (subst check_loop.simps) simp
  next
    case True
    define k where "k = (hashes ! i) mod number_bits bf"
    from "1.prems" [of i] True
    have c: "\<not> 2147483647 < i" "\<not> length hashes \<le> i" "number_bits bf \<noteq> 0"
      and b: "bit_set (bloom bf) k"
      by (simp_all add: k_def)
    from b have d: "\<not> length (bloom bf) \<le> unat (k div 8)" and e: "check_bit (bloom bf) k \<noteq> 0"
      by (simp_all add: bit_set_def check_bit_iff)
    have "check_loop bf hashes (Suc i) = Inr BLOOM_SUCCESS"
    proof (rule "1.IH" [OF True c k_def d e])
      fix j assume "Suc i \<le> j" "j < unat (number_hashes bf)"
      then show "j \<le> 2147483647 \<and> j < length hashes \<and> number_bits bf \<noteq> 0
               \<and> bit_set (bloom bf) (hashes ! j mod number_bits bf)"
        using "1.prems" [of j] by simp
    qed
    with True c d e show ?thesis
      by (subst check_loop.simps) (simp add: Let_def k_def)
  qed
qed

lemma add_string_alt_Inr:
  assumes "bloom_filter_add_string_alt bf hs n = Inr (st, bf')"
  shows "number_hashes bf' = number_hashes bf \<and> number_bits bf' = number_bits bf
    \<and> hash_function bf' = hash_function bf \<and> bits_le (bloom bf) (bloom bf')"
proof (cases "n < number_hashes bf")
  case True
  with assms show ?thesis
    by (simp add: bloom_filter_add_string_alt_def bits_le_refl)
next
  case False
  with assms obtain bf1 where a: "add_loop bf hs 0 = Inr bf1"
    by (auto simp: bloom_filter_add_string_alt_def split: sum.splits)
  from add_loop_fields [OF a] have f: "bf1 = bf\<lparr>bloom := bloom bf1\<rparr>" "bits_le (bloom bf) (bloom bf1)"
    by simp_all
  have "bloom bf' = bloom bf1 \<and> number_hashes bf' = number_hashes bf1
    \<and> number_bits bf' = number_bits bf1 \<and> hash_function bf' = hash_function bf1"
    using assms False a
    by (auto simp: bloom_filter_add_string_alt_def persist_elements_added_def Let_def
        split: if_splits option.splits)
  with f show ?thesis
    by (metis BloomFilter.select_convs BloomFilter.surjective BloomFilter.update_convs(5))
qed

section \<open>Operations on a valid filter return\<close>

lemma index_in_range:
  assumes "m \<noteq> 0" "unat m \<le> 8 * n"
  shows "unat (((h :: 64 word) mod m) div 8) < n"
proof -
  have "unat (h mod m) < unat m"
    using assms(1) by (simp add: unat_mod unat_gt_0)
  then have "unat (h mod m) div 8 < n"
    using assms(2) by simp
  then show ?thesis
    by (simp add: unat_div)
qed

lemma add_loop_total:
  assumes "number_bits bf \<noteq> 0" "unat (number_bits bf) \<le> 8 * length (bloom bf)"
    "unat (number_hashes bf) \<le> 2147483647" "unat (number_hashes bf) \<le> length hs"
  shows "\<exists>bf'. add_loop bf hs i = Inr bf'"
  using assms
proof (induction bf hs i rule: add_loop.induct)
  case (1 bf hashes i)
  show ?case
  proof (cases "i < unat (number_hashes bf)")
    case False
    then show ?thesis by (subst add_loop.simps) simp
  next
    case True
    define k where "k = (hashes ! i) mod number_bits bf"
    define bf1 where "bf1 = bf\<lparr>bloom := (bloom bf)[unat (k div 8) :=
                        bloom bf ! unat (k div 8) OR push_bit (unat (k mod 8)) 1]\<rparr>"
    have c: "\<not> 2147483647 < i" "\<not> length hashes \<le> i" "number_bits bf \<noteq> 0"
      using True "1.prems" by simp_all
    have d: "\<not> length (bloom bf) \<le> unat (k div 8)"
      using index_in_range [OF "1.prems"(1,2), of "hashes ! i"] by (simp add: k_def)
    have "\<exists>bf'. add_loop bf1 hashes (Suc i) = Inr bf'"
      using "1.IH" [OF True c k_def d] "1.prems" by (simp add: bf1_def)
    then show ?thesis
      using True c d by (subst add_loop.simps) (simp add: Let_def k_def bf1_def)
  qed
qed

lemma check_loop_total:
  assumes "number_bits bf \<noteq> 0" "unat (number_bits bf) \<le> 8 * length (bloom bf)"
    "unat (number_hashes bf) \<le> 2147483647" "unat (number_hashes bf) \<le> length hs"
  shows "\<exists>st. check_loop bf hs i = Inr st"
  using assms
proof (induction bf hs i rule: check_loop.induct)
  case (1 bf hashes i)
  show ?case
  proof (cases "i < unat (number_hashes bf)")
    case False
    then show ?thesis by (subst check_loop.simps) simp
  next
    case True
    define k where "k = (hashes ! i) mod number_bits bf"
    have c: "\<not> 2147483647 < i" "\<not> length hashes \<le> i" "number_bits bf \<noteq> 0"
      using True "1.prems" by simp_all
    have d: "\<not> length (bloom bf) \<le> unat (k div 8)"
      using index_in_range [OF "1.prems"(1,2), of "hashes ! i"] by (simp add: k_def)
    show ?thesis
    proof (cases "check_bit (bloom bf) k = 0")
      case True
      with \<open>i < unat (number_hashes bf)\<close> c d show ?thesis
        by (subst check_loop.simps) (simp add: Let_def k_def)
    next
      case False
      from "1.IH" [OF True c k_def d False] "1.prems"
      have "\<exists>st. check_loop bf hashes (Suc i) = Inr st" by simp
      with True c d False show ?thesis
        by (subst check_loop.simps) (simp add: Let_def k_def)
    qed
  qed
qed

lemma valid_filter_bloom:
  "valid_filter bf \<Longrightarrow> unat (number_bits bf) \<le> 8 * length (bloom bf)"
  by (auto simp: valid_filter_def)

lemma add_string_total:
  assumes "valid_filter bf"
  shows "\<exists>bf'. bloom_filter_add_string bf str = Inr (BLOOM_SUCCESS, bf') \<and> valid_filter bf'"
proof -
  from assms obtain f where f: "hash_function bf = Some f"
    and len: "unat (number_hashes bf) \<le> length (f (sint (number_hashes bf)) str)"
    by (auto simp: valid_filter_def)
  define hs where "hs = f (sint (number_hashes bf)) str"
  from assms len obtain bf1 where l: "add_loop bf hs 0 = Inr bf1"
    using add_loop_total [of bf hs 0] valid_filter_bloom [OF assms]
    by (auto simp: valid_filter_def hs_def)
  from add_loop_fields [OF l] have e: "bf1 = bf\<lparr>bloom := bloom bf1\<rparr>"
    and b: "length (bloom bf1) = length (bloom bf)"
    by (simp_all add: bits_le_def)
  define bf2 where "bf2 = bf1\<lparr>elements_added := elements_added bf1 + 1\<rparr>"
  define bf3 where "bf3 = (if is_on_disk bf2 = 1
      then bf2\<lparr>filepointer := Some (Trailer (elements_added bf2))\<rparr> else bf2)"
  have v1: "valid_filter bf1"
    using assms b by (subst e) (auto simp: valid_filter_def)
  then have v3: "valid_filter bf3"
    by (auto simp: valid_filter_def bf3_def bf2_def)
  have "is_on_disk bf2 = 1 \<Longrightarrow> filepointer bf2 \<noteq> None"
    using v1 by (auto simp: valid_filter_def bf2_def)
  then have "bloom_filter_add_string_alt bf hs (number_hashes bf) = Inr (BLOOM_SUCCESS, bf3)"
    using l by (auto simp: bloom_filter_add_string_alt_def persist_elements_added_def Let_def
        bf2_def bf3_def)
  with v3 show ?thesis
    by (auto simp: bloom_filter_add_string_def bloom_filter_calculate_hashes_def f hs_def)
qed

lemma check_string_total:
  assumes "valid_filter bf"
  shows "\<exists>st. bloom_filter_check_string bf str = Inr st"
proof -
  from assms obtain f where f: "hash_function bf = Some f"
    and len: "unat (number_hashes bf) \<le> length (f (sint (number_hashes bf)) str)"
    by (auto simp: valid_filter_def)
  from assms len show ?thesis
    using check_loop_total [of bf "f (sint (number_hashes bf)) str" 0] valid_filter_bloom [OF assms]
    by (auto simp: valid_filter_def bloom_filter_check_string_def
        bloom_filter_calculate_hashes_def f bloom_filter_check_string_alt_def)
qed


lemma md5_loop_length: "length (md5_loop env n str d i) = nat n - i"
proof (induction env n str d i rule: md5_loop.induct)
  case (1 env num_hashes str digest i)
  show ?case
  proof (cases "int i < num_hashes")
    case True
    with "1.IH" [OF True refl] show ?thesis
      by (subst md5_loop.simps) (simp add: Let_def)
  next
    case False
    then show ?thesis by (subst md5_loop.simps) simp
  qed
qed

lemma md5_hash_default_length: "length (md5_hash_default env n str) = nat n"
  by (simp add: md5_hash_default_def md5_loop_length)

lemma valid_fresh_100: "valid_filter fresh_100"
  by (simp add: valid_filter_def fresh_100_def md5_hash_default_length)

section \<open>No false negatives\<close>

lemma map_sum_snd_Inr: "map_sum id snd r = Inr b \<Longrightarrow> \<exists>st. r = Inr (st, b)"
  by (cases r) auto

lemma map_sum_const_Inr: "map_sum id (\<lambda>r. a) r = Inr b \<Longrightarrow> b = a"
  by (cases r) auto

lemma add_string_Inr:
  assumes "bloom_filter_add_string bf str = Inr (st, bf')"
  shows "number_hashes bf' = number_hashes bf \<and> number_bits bf' = number_bits bf
    \<and> hash_function bf' = hash_function bf \<and> bits_le (bloom bf) (bloom bf')"
  using assms
  by (auto simp: bloom_filter_add_string_def bloom_filter_calculate_hashes_def
      split: option.splits dest: add_string_alt_Inr)

lemma step_keeps:
  assumes "step bf c = Inr bf'" "c \<noteq> Clear" "c \<noteq> Destroy"
  shows "number_hashes bf' = number_hashes bf \<and> number_bits bf' = number_bits bf
    \<and> hash_function bf' = hash_function bf \<and> bits_le (bloom bf) (bloom bf')"
proof (cases c)
  case (AddString str)
  with assms(1) show ?thesis
    by (auto dest!: map_sum_snd_Inr dest: add_string_Inr)
next
  case (AddStringAlt hs n)
  with assms(1) show ?thesis
    by (auto dest!: map_sum_snd_Inr dest: add_string_alt_Inr)
qed (use assms in \<open>auto dest: map_sum_const_Inr simp: bits_le_refl\<close>)

lemma run_keeps:
  "run bf cs = Inr bf' \<Longrightarrow> Clear \<notin> set cs \<Longrightarrow> Destroy \<notin> set cs \<Longrightarrow>
   number_hashes bf' = number_hashes bf \<and> number_bits bf' = number_bits bf
    \<and> hash_function bf' = hash_function bf \<and> bits_le (bloom bf) (bloom bf')"
proof (induction cs arbitrary: bf)
  case Nil
  then show ?case by (simp add: bits_le_refl)
next
  case (Cons c cs)
  from Cons.prems(1) obtain bf1 where s: "step bf c = Inr bf1" and r: "run bf1 cs = Inr bf'"
    by (auto split: sum.splits)
  from Cons.prems have "c \<noteq> Clear" "c \<noteq> Destroy" by auto
  from step_keeps [OF s this] Cons.IH [OF r] Cons.prems
  show ?case by (auto intro: bits_le_trans)
qed

text \<open>
  C1. Once \<^verbatim>\<open>bloom_filter_add_string\<close> has returned \<^verbatim>\<open>BLOOM_SUCCESS\<close> for a key, every
  later \<^verbatim>\<open>bloom_filter_check_string\<close> of that key returns \<^verbatim>\<open>BLOOM_SUCCESS\<close>, whatever
  sequence of inserts, lookups, estimates and exports was run in between, as long as it
  holds no \<^verbatim>\<open>bloom_filter_clear\<close> (and no \<^verbatim>\<open>bloom_filter_destroy\<close>). The bit array changes
  through these calls only.
\<close>

theorem no_false_negatives:
  assumes add: "bloom_filter_add_string bf x = Inr (BLOOM_SUCCESS, bf1)"
    and run: "run bf1 calls = Inr bf2"
    and calls: "Clear \<notin> set calls" "Destroy \<notin> set calls"
  shows "bloom_filter_check_string bf2 x = Inr BLOOM_SUCCESS"
proof -
  from add obtain f where f: "hash_function bf = Some f"
    and alt: "bloom_filter_add_string_alt bf (f (sint (number_hashes bf)) x) (number_hashes bf)
                = Inr (BLOOM_SUCCESS, bf1)"
    by (auto simp: bloom_filter_add_string_def bloom_filter_calculate_hashes_def
        split: option.splits)
  define hs where "hs = f (sint (number_hashes bf)) x"
  from alt obtain bfa where loop: "add_loop bf hs 0 = Inr bfa" and b: "bloom bf1 = bloom bfa"
    by (auto simp: bloom_filter_add_string_alt_def persist_elements_added_def Let_def hs_def
        split: sum.splits if_splits option.splits)
  from add_string_alt_Inr [OF alt] run_keeps [OF run calls]
  have k: "number_hashes bf2 = number_hashes bf" and m: "number_bits bf2 = number_bits bf"
    and h: "hash_function bf2 = Some f" and le: "bits_le (bloom bf1) (bloom bf2)"
    by (simp_all add: f)
  have "check_loop bf2 hs 0 = Inr BLOOM_SUCCESS"
  proof (rule check_loop_success)
    fix j assume "0 \<le> j" "j < unat (number_hashes bf2)"
    then have "j < unat (number_hashes bf)" by (simp add: k)
    from add_loop_sets [OF loop _ this] le
    show "j \<le> 2147483647 \<and> j < length hs \<and> number_bits bf2 \<noteq> 0
            \<and> bit_set (bloom bf2) (hs ! j mod number_bits bf2)"
      by (auto simp: m b intro: bit_set_mono)
  qed
  then show ?thesis
    by (simp add: bloom_filter_check_string_def bloom_filter_calculate_hashes_def h k
        bloom_filter_check_string_alt_def hs_def)
qed


theorem no_false_negatives_witness:
  "\<exists>bf1 bf2.
     bloom_filter_add_string fresh_100 ''abc'' = Inr (BLOOM_SUCCESS, bf1)
   \<and> run bf1 [AddString ''xyz'', CheckString ''abc''] = Inr bf2
   \<and> Clear \<notin> set [AddString ''xyz'', CheckString ''abc'']
   \<and> Destroy \<notin> set [AddString ''xyz'', CheckString ''abc'']
   \<and> bloom_filter_check_string bf2 ''abc'' = Inr BLOOM_SUCCESS"
proof -
  from add_string_total [OF valid_fresh_100, of "''abc''"]
  obtain bf1 where a: "bloom_filter_add_string fresh_100 ''abc'' = Inr (BLOOM_SUCCESS, bf1)"
    and v1: "valid_filter bf1" by blast
  from add_string_total [OF v1, of "''xyz''"]
  obtain bf2 where b: "bloom_filter_add_string bf1 ''xyz'' = Inr (BLOOM_SUCCESS, bf2)"
    and v2: "valid_filter bf2" by blast
  from check_string_total [OF v2, of "''abc''"]
  obtain st where c: "bloom_filter_check_string bf2 ''abc'' = Inr st" by blast
  have r: "run bf1 [AddString ''xyz'', CheckString ''abc''] = Inr bf2"
    by (simp add: b c)
  have n: "Clear \<notin> set [AddString ''xyz'', CheckString ''abc'']"
    "Destroy \<notin> set [AddString ''xyz'', CheckString ''abc'']"
    by simp_all
  from no_false_negatives [OF a r n] a r n show ?thesis
    by blast
qed

section \<open>Rejection of too few hashes\<close>

text \<open>
  C4. When fewer hashes are passed than the filter uses, both the insert and the lookup
  with given hashes return \<^verbatim>\<open>BLOOM_FAILURE\<close>, and the insert hands back the filter as it
  was: the counter, every byte of the bit array and all other fields.
\<close>

theorem insufficient_hashes_rejected:
  assumes "number_hashes_passed < number_hashes bf"
  shows "bloom_filter_add_string_alt bf hashes number_hashes_passed = Inr (BLOOM_FAILURE, bf)
    \<and> bloom_filter_check_string_alt bf hashes number_hashes_passed = Inr BLOOM_FAILURE"
  using assms
  by (simp add: bloom_filter_add_string_alt_def bloom_filter_check_string_alt_def)

theorem insufficient_hashes_rejected_witness:
  "(3 :: 32 word) < number_hashes fresh_100
    \<and> bloom_filter_add_string_alt fresh_100 [1, 2, 3] 3 = Inr (BLOOM_FAILURE, fresh_100)
    \<and> bloom_filter_check_string_alt fresh_100 [1, 2, 3] 3 = Inr BLOOM_FAILURE"
proof -
  have h: "(3 :: 32 word) < number_hashes fresh_100"
    by (simp add: fresh_100_def)
  show ?thesis
    using h insufficient_hashes_rejected [OF h, of "[1, 2, 3]"] by simp
qed

section \<open>Clearing\<close>

lemma clear_loop_result:
  assumes "nat (sint (bloom_length bf)) \<le> length (bloom bf)"
  shows "clear_loop bf i =
     Inr (bf\<lparr>bloom := take i (bloom bf)
                 @ replicate (nat (sint (bloom_length bf)) - i) 0
                 @ drop (max i (nat (sint (bloom_length bf)))) (bloom bf)\<rparr>)"
  using assms
proof (induction bf i rule: clear_loop.induct)
  case (1 bf i)
  let ?n = "nat (sint (bloom_length bf))"
  show ?case
  proof (cases "int i < sint (bloom_length bf)")
    case False
    then have "?n - i = 0" "max i ?n = i" by simp_all
    with False show ?thesis
      by (subst clear_loop.simps) simp
  next
    case True
    then have i: "i < ?n" "i < length (bloom bf)" using "1.prems" by simp_all
    then have nl: "\<not> length (bloom bf) \<le> i" by simp
    have "clear_loop bf i = clear_loop (bf\<lparr>bloom := (bloom bf)[i := 0]\<rparr>) (Suc i)"
      using True nl by (subst clear_loop.simps) simp
    also have "\<dots> = Inr (bf\<lparr>bloom := take (Suc i) ((bloom bf)[i := 0])
                 @ replicate (?n - Suc i) 0
                 @ drop (max (Suc i) ?n) ((bloom bf)[i := 0])\<rparr>)"
      using "1.IH" [OF True nl] "1.prems" by simp
    also have "take (Suc i) ((bloom bf)[i := 0]) = take i (bloom bf) @ [0]"
      using i by (simp add: take_Suc_conv_app_nth)
    also have "drop (max (Suc i) ?n) ((bloom bf)[i := 0]) = drop (max i ?n) (bloom bf)"
      using i by (simp add: max_def)
    also have "(take i (bloom bf) @ [0]) @ replicate (?n - Suc i) 0 @ drop (max i ?n) (bloom bf)
        = take i (bloom bf) @ replicate (?n - i) 0 @ drop (max i ?n) (bloom bf)"
      using i by (simp add: replicate_Suc [symmetric] Suc_diff_Suc del: replicate_Suc)
    finally show ?thesis .
  qed
qed

lemma clear_result:
  assumes "nat (sint (bloom_length bf)) \<le> length (bloom bf)"
  shows "bloom_filter_clear bf =
     Inr (BLOOM_SUCCESS,
          bf\<lparr>bloom := replicate (nat (sint (bloom_length bf))) 0
                 @ drop (nat (sint (bloom_length bf))) (bloom bf),
             elements_added := 0\<rparr>)"
  by (simp add: bloom_filter_clear_def clear_loop_result [OF assms])

lemma clear_Inr_allocated:
  assumes "bloom_filter_clear bf = Inr r"
  shows "nat (sint (bloom_length bf)) \<le> length (bloom bf)"
proof (rule ccontr)
  assume "\<not> ?thesis"
  then have l: "length (bloom bf) < nat (sint (bloom_length bf))" by simp
  have "\<And>i. i \<le> length (bloom b) \<Longrightarrow> length (bloom b) < nat (sint (bloom_length b)) \<Longrightarrow>
     clear_loop b i = Inl OutOfBounds" for b
  proof -
    fix i
    show "i \<le> length (bloom b) \<Longrightarrow> length (bloom b) < nat (sint (bloom_length b)) \<Longrightarrow>
      clear_loop b i = Inl OutOfBounds"
    proof (induction b i rule: clear_loop.induct)
      case (1 bf i)
      then have t: "int i < sint (bloom_length bf)" by simp
      show ?case
      proof (cases "length (bloom bf) \<le> i")
        case True
        with t show ?thesis by (subst clear_loop.simps) simp
      next
        case False
        with "1.IH" [OF t False] "1.prems" t show ?thesis
          by (subst clear_loop.simps) simp
      qed
    qed
  qed
  from this [of 0 bf] l assms show False
    by (simp add: bloom_filter_clear_def)
qed


lemma step_reads_only: "reads_only c \<Longrightarrow> step bf c = Inr bf' \<Longrightarrow> bf' = bf"
  by (cases c) (auto dest: map_sum_const_Inr)

lemma run_reads_only: "list_all reads_only cs \<Longrightarrow> run bf cs = Inr bf' \<Longrightarrow> bf' = bf"
proof (induction cs arbitrary: bf)
  case Nil
  then show ?case by simp
next
  case (Cons c cs)
  from Cons.prems(2) obtain bf1 where s: "step bf c = Inr bf1" and r: "run bf1 cs = Inr bf'"
    by (auto split: sum.splits)
  from Cons.prems(1) step_reads_only [OF _ s] have "bf1 = bf" by simp
  with Cons.IH [OF _ r] Cons.prems(1) show ?case by simp
qed

lemma check_zero_failure:
  assumes v: "valid_filter bf" and k: "1 \<le> number_hashes bf"
    and z: "\<forall>j. int j < sint (bloom_length bf) \<longrightarrow> bloom bf ! j = 0"
  shows "bloom_filter_check_string bf x = Inr BLOOM_FAILURE"
proof -
  from v obtain f where f: "hash_function bf = Some f"
    and len: "unat (number_hashes bf) \<le> length (f (sint (number_hashes bf)) x)"
    by (auto simp: valid_filter_def)
  define hs where "hs = f (sint (number_hashes bf)) x"
  define b where "b = hs ! 0 mod number_bits bf"
  from k have k0: "0 < unat (number_hashes bf)"
    by (simp add: word_le_nat_alt)
  with len have h0: "\<not> length hs \<le> 0" by (auto simp: hs_def)
  from v have m: "number_bits bf \<noteq> 0" by (simp add: valid_filter_def)
  from v have i: "unat (b div 8) < nat (sint (bloom_length bf))"
    unfolding b_def by (intro index_in_range) (simp_all add: valid_filter_def)
  with v have l: "\<not> length (bloom bf) \<le> unat (b div 8)"
    by (simp add: valid_filter_def)
  from i have "int (unat (b div 8)) < sint (bloom_length bf)" by linarith
  with z have "bloom bf ! unat (b div 8) = 0" by blast
  then have c: "check_bit (bloom bf) b = 0" by (simp add: check_bit_def)
  have "check_loop bf hs 0 = Inr BLOOM_FAILURE"
    using k0 h0 m l c by (subst check_loop.simps) (simp add: Let_def b_def)
  then show ?thesis
    by (simp add: bloom_filter_check_string_def bloom_filter_calculate_hashes_def f
        bloom_filter_check_string_alt_def hs_def)
qed

text \<open>
  C6. When \<^verbatim>\<open>bloom_filter_clear\<close> has returned, it has returned \<^verbatim>\<open>BLOOM_SUCCESS\<close>, the
  counter \<^verbatim>\<open>elements_added\<close> is 0 and each of the \<^verbatim>\<open>bloom_length\<close> bytes of the bit array
  is 0. On a valid filter with at least one hash, \<^verbatim>\<open>bloom_filter_check_string\<close> then
  returns \<^verbatim>\<open>BLOOM_FAILURE\<close> for every key, and goes on to do so after any calls that only
  read the filter.
\<close>

theorem clear_resets:
  assumes "bloom_filter_clear bf = Inr (st, bf1)"
  shows "st = BLOOM_SUCCESS \<and> elements_added bf1 = 0
    \<and> (\<forall>j. int j < sint (bloom_length bf1) \<longrightarrow> bloom bf1 ! j = 0)
    \<and> (valid_filter bf \<and> 1 \<le> number_hashes bf \<and> list_all reads_only calls
          \<and> run bf1 calls = Inr bf2
        \<longrightarrow> bloom_filter_check_string bf2 x = Inr BLOOM_FAILURE)"
proof -
  let ?n = "nat (sint (bloom_length bf))"
  from clear_Inr_allocated [OF assms] have a: "?n \<le> length (bloom bf)" .
  from assms clear_result [OF a]
  have st: "st = BLOOM_SUCCESS"
    and bf1: "bf1 = bf\<lparr>bloom := replicate ?n 0 @ drop ?n (bloom bf), elements_added := 0\<rparr>"
    by simp_all
  have z: "\<forall>j. int j < sint (bloom_length bf1) \<longrightarrow> bloom bf1 ! j = 0"
    by (auto simp: bf1 nth_append)
  have "bloom_filter_check_string bf2 x = Inr BLOOM_FAILURE"
    if "valid_filter bf" "1 \<le> number_hashes bf" "list_all reads_only calls"
      "run bf1 calls = Inr bf2"
  proof -
    from that(1) a have "valid_filter bf1"
      by (simp add: bf1 valid_filter_def)
    moreover from that(2) have "1 \<le> number_hashes bf1" by (simp add: bf1)
    moreover from run_reads_only [OF that(3,4)] have "bf2 = bf1" .
    ultimately show ?thesis
      using z by (simp add: check_zero_failure)
  qed
  with st z show ?thesis by (simp add: bf1)
qed

lemma clear_used_100: "bloom_filter_clear used_100 = Inr (BLOOM_SUCCESS, fresh_100)"
proof -
  have "nat (sint (bloom_length used_100)) \<le> length (bloom used_100)"
    by (simp add: used_100_def fresh_100_def)
  from clear_result [OF this] show ?thesis
    by (simp add: used_100_def fresh_100_def)
qed

theorem clear_resets_witness:
  "bloom_filter_clear used_100 = Inr (BLOOM_SUCCESS, fresh_100)
    \<and> elements_added used_100 = 1 \<and> elements_added fresh_100 = 0
    \<and> valid_filter used_100 \<and> 1 \<le> number_hashes used_100
    \<and> list_all reads_only [CheckString ''abc'', CurrentFalsePositiveRate]
    \<and> run fresh_100 [CheckString ''abc'', CurrentFalsePositiveRate] = Inr fresh_100
    \<and> bloom_filter_check_string fresh_100 ''abc'' = Inr BLOOM_FAILURE"
proof -
  have v: "valid_filter used_100" "1 \<le> number_hashes used_100"
    using valid_fresh_100 by (simp_all add: used_100_def valid_filter_def fresh_100_def)
  have l: "list_all reads_only [CheckString ''abc'', CurrentFalsePositiveRate]" by simp
  from check_string_total [OF valid_fresh_100, of "''abc''"]
  have r: "run fresh_100 [CheckString ''abc'', CurrentFalsePositiveRate] = Inr fresh_100"
    by auto
  from clear_resets [OF clear_used_100, of "[CheckString ''abc'', CurrentFalsePositiveRate]"
      fresh_100 "''abc''"] v l r clear_used_100
  show ?thesis by (simp add: used_100_def fresh_100_def)
qed

section \<open>Parameter derivation\<close>

subsection \<open>Bounds on the exponential and the logarithm\<close>

lemma exp_lower_sum:
  fixes x :: real
  assumes "0 \<le> x"
  shows "(\<Sum>m<n. x ^ m / fact m) \<le> exp x"
proof -
  from Maclaurin_exp_le [of x n] obtain t where
    e: "exp x = (\<Sum>m<n. x ^ m / fact m) + exp t / fact n * x ^ n" by blast
  have "0 \<le> exp t / fact n * x ^ n"
    using assms by simp
  with e show ?thesis by linarith
qed

lemma exp_upper_sum:
  fixes x :: real
  assumes "0 \<le> x" "x \<le> 1 / 2"
  shows "exp x \<le> (\<Sum>m<n. x ^ m / fact m) + 2 * x ^ n / fact n"
proof -
  from Maclaurin_exp_le [of x n] obtain t where t: "\<bar>t\<bar> \<le> \<bar>x\<bar>" and
    e: "exp x = (\<Sum>m<n. x ^ m / fact m) + exp t / fact n * x ^ n" by blast
  from t assms have "norm t \<le> 1 / 2" by simp
  from exp_bound_half [OF this] have "exp t \<le> 2" by simp
  then have "exp t * (x ^ n / fact n) \<le> 2 * (x ^ n / fact n)"
    using assms by (intro mult_right_mono) simp_all
  with e show ?thesis by simp
qed

lemma exp_le_power:
  fixes x y z :: real
  assumes "exp x \<le> y" "y ^ n \<le> z"
  shows "exp (real n * x) \<le> z"
proof -
  have "exp (real n * x) = exp x ^ n" by (rule exp_of_nat_mult)
  also have "\<dots> \<le> y ^ n" using assms(1) by (intro power_mono) simp_all
  finally show ?thesis using assms(2) by simp
qed

lemma exp_ge_power:
  fixes x y z :: real
  assumes "0 \<le> y" "y \<le> exp x" "z \<le> y ^ n"
  shows "z \<le> exp (real n * x)"
proof -
  have "y ^ n \<le> exp x ^ n" using assms(1,2) by (intro power_mono) simp_all
  also have "\<dots> = exp (real n * x)" by (rule exp_of_nat_mult [symmetric])
  finally show ?thesis using assms(3) by simp
qed

lemma ln_ge_of_exp_le:
  fixes q y :: real
  assumes "0 < q" "exp y \<le> q"
  shows "y \<le> ln q"
  using assms by (simp add: ln_ge_iff)

lemma ln_le_of_le_exp:
  fixes q y :: real
  assumes "0 < q" "q \<le> exp y"
  shows "ln q \<le> y"
proof -
  from assms have "ln q \<le> ln (exp y)"
    by (subst ln_le_cancel_iff) simp_all
  then show ?thesis by simp
qed

lemma ln2_bounds: "69 / 100 \<le> ln (2 :: real)" "ln (2 :: real) \<le> 7 / 10"
proof -
  have "exp (69 / 200 :: real) \<le> (\<Sum>m<5. (69 / 200) ^ m / fact m) + 2 * (69 / 200) ^ 5 / fact 5"
    by (rule exp_upper_sum) simp_all
  also have "\<dots> \<le> 14121 / 10000"
    by (simp add: lessThan_nat_numeral lessThan_Suc fact_numeral power_divide)
  finally have "exp (69 / 200 :: real) \<le> 14121 / 10000" .
  then have "exp (real 2 * (69 / 200)) \<le> 2"
    by (rule exp_le_power) (simp add: power_divide)
  then have "real 2 * (69 / 200) \<le> ln 2"
    by (intro ln_ge_of_exp_le) simp_all
  then show "69 / 100 \<le> ln (2 :: real)"
    by simp
  have "(2 :: real) \<le> (\<Sum>m<4. (7 / 10) ^ m / fact m)"
    by (simp add: lessThan_nat_numeral lessThan_Suc fact_numeral power_divide)
  also have "\<dots> \<le> exp (7 / 10)"
    by (rule exp_lower_sum) simp
  finally have "(2 :: real) \<le> exp (7 / 10)" .
  then show "ln (2 :: real) \<le> 7 / 10"
    by (intro ln_le_of_le_exp) simp_all
qed

lemma ln_bounds_of_reciprocal:
  fixes p q lo hi :: real
  assumes "0 < q" "p * q = 1" "exp lo \<le> q" "q \<le> exp hi"
  shows "- hi \<le> ln p \<and> ln p \<le> - lo"
proof -
  from assms(1,2) have "p = inverse q"
    by (simp add: field_simps)
  then have "ln p = - ln q"
    using assms(1) by (simp add: ln_inverse)
  moreover have "lo \<le> ln q"
    using assms(1,3) by (rule ln_ge_of_exp_le)
  moreover have "ln q \<le> hi"
    using assms(1,4) by (rule ln_le_of_le_exp)
  ultimately show ?thesis by simp
qed

text \<open>The float nearest to 0.01 is \<open>10737418 / 2\<^sup>3\<^sup>0\<close>.\<close>

lemma ln_float_001_bounds:
  "- (4606 / 1000) \<le> ln (5368709 / 536870912 :: real)
    \<and> ln (5368709 / 536870912 :: real) \<le> - (4604 / 1000)"
proof -
  define q :: real where "q = 536870912 / 5368709"
  have "exp (1151 / 2500 :: real)
      \<le> (\<Sum>m<7. (1151 / 2500) ^ m / fact m) + 2 * (1151 / 2500) ^ 7 / fact 7"
    by (rule exp_upper_sum) simp_all
  also have "\<dots> \<le> 158472 / 100000"
    by (simp add: lessThan_nat_numeral lessThan_Suc fact_numeral power_divide)
  finally have "exp (1151 / 2500 :: real) \<le> 158472 / 100000" .
  then have "exp (real 10 * (1151 / 2500)) \<le> q"
    by (rule exp_le_power) (simp add: power_divide q_def)
  then have lo: "exp (4604 / 1000) \<le> q" by simp
  have "(1585 / 1000 :: real) \<le> (\<Sum>m<7. (2303 / 5000) ^ m / fact m)"
    by (simp add: lessThan_nat_numeral lessThan_Suc fact_numeral power_divide)
  also have "\<dots> \<le> exp (2303 / 5000)"
    by (rule exp_lower_sum) simp
  finally have "(1585 / 1000 :: real) \<le> exp (2303 / 5000)" .
  then have "q \<le> exp (real 10 * (2303 / 5000))"
    by (rule exp_ge_power [rotated]) (simp_all add: power_divide q_def)
  then have hi: "q \<le> exp (4606 / 1000)" by simp
  show ?thesis
    by (rule ln_bounds_of_reciprocal [OF _ _ lo hi]) (simp_all add: q_def)
qed

text \<open>The float nearest to 0.9 is \<open>15099494 / 2\<^sup>2\<^sup>4\<close>.\<close>

lemma ln_float_09_bounds:
  "- (1055 / 10000) \<le> ln (7549747 / 8388608 :: real)
    \<and> ln (7549747 / 8388608 :: real) \<le> - (1053 / 10000)"
proof -
  define q :: real where "q = 8388608 / 7549747"
  have "exp (1053 / 10000 :: real)
      \<le> (\<Sum>m<4. (1053 / 10000) ^ m / fact m) + 2 * (1053 / 10000) ^ 4 / fact 4"
    by (rule exp_upper_sum) simp_all
  also have "\<dots> \<le> q"
    by (simp add: lessThan_nat_numeral lessThan_Suc fact_numeral power_divide q_def)
  finally have lo: "exp (1053 / 10000 :: real) \<le> q" .
  have "q \<le> (\<Sum>m<4. (1055 / 10000) ^ m / fact m)"
    by (simp add: lessThan_nat_numeral lessThan_Suc fact_numeral power_divide q_def)
  also have "\<dots> \<le> exp (1055 / 10000)"
    by (rule exp_lower_sum) simp
  finally have hi: "q \<le> exp (1055 / 10000)" .
  show ?thesis
    by (rule ln_bounds_of_reciprocal [OF _ _ lo hi]) (simp_all add: q_def)
qed


subsection \<open>Values of floats\<close>

lemma float_val_001: "float_val 0x3c23d70a = Finite (5368709 / 536870912)"
  by (simp add: float_val_def Let_def bit_iff_odd drop_bit_eq_div)

lemma float_val_09: "float_val 0x3f666666 = Finite (7549747 / 8388608)"
  by (simp add: float_val_def Let_def bit_iff_odd drop_bit_eq_div)

lemma float_val_nan: "float_val 0x7fc00000 = NaN"
  by (simp add: float_val_def Let_def bit_iff_odd drop_bit_eq_div)

subsection \<open>Rounding within the accuracy of the platform\<close>

lemma d_of_int_exact:
  assumes "fpu_ok env" "\<bar>i\<bar> \<le> 2 ^ 53"
  shows "d_of_int env i = of_int i"
  using assms by (simp add: fpu_ok_def d_of_int_def)

lemma rnd_pos:
  assumes ok: "fpu_ok env" and x: "lo \<le> x" "x \<le> hi" and r: "1 / 1000 \<le> lo" "hi \<le> 1000000"
  shows "lo * (999999 / 1000000) \<le> rnd env x \<and> rnd env x \<le> hi * (1000001 / 1000000)"
proof -
  have x0: "0 < x" using x r by linarith
  have "1 / 2 ^ 64 \<le> \<bar>x\<bar> \<and> \<bar>x\<bar> \<le> 2 ^ 64"
    using x r by simp
  with ok have "\<bar>rnd env x - x\<bar> \<le> \<bar>x\<bar> / 2 ^ 20"
    by (simp add: fpu_ok_def)
  moreover have "\<bar>x\<bar> / 2 ^ 20 \<le> x / 1000000"
    using x0 by simp
  ultimately have e: "\<bar>rnd env x - x\<bar> \<le> x / 1000000" by linarith
  have "lo * (999999 / 1000000) \<le> x * (999999 / 1000000)"
    using x by simp
  moreover have "x * (1000001 / 1000000) \<le> hi * (1000001 / 1000000)"
    using x by simp
  ultimately show ?thesis using e by (intro conjI; linarith)
qed

lemma log_neg:
  assumes ok: "fpu_ok env" and x: "1 / 2 ^ 64 \<le> x" "x \<le> 2 ^ 64"
    and l: "lo \<le> ln x" "ln x \<le> hi" "hi \<le> 0"
  shows "lo * (1000001 / 1000000) \<le> d_log env x \<and> d_log env x \<le> hi * (999999 / 1000000)"
proof -
  from ok x have "\<bar>d_log env x - ln x\<bar> \<le> \<bar>ln x\<bar> / 2 ^ 20"
    by (simp add: fpu_ok_def)
  moreover have "\<bar>ln x\<bar> / 2 ^ 20 \<le> - ln x / 1000000"
    using l by simp
  ultimately have e: "\<bar>d_log env x - ln x\<bar> \<le> - ln x / 1000000" by linarith
  have "lo * (1000001 / 1000000) \<le> ln x * (1000001 / 1000000)"
    using l by simp
  moreover have "ln x * (999999 / 1000000) \<le> hi * (999999 / 1000000)"
    using l by simp
  ultimately show ?thesis using e by (intro conjI; linarith)
qed

lemma log_pos:
  assumes ok: "fpu_ok env" and x: "1 / 2 ^ 64 \<le> x" "x \<le> 2 ^ 64"
    and l: "lo \<le> ln x" "ln x \<le> hi" "0 \<le> lo"
  shows "lo * (999999 / 1000000) \<le> d_log env x \<and> d_log env x \<le> hi * (1000001 / 1000000)"
proof -
  from ok x have "\<bar>d_log env x - ln x\<bar> \<le> \<bar>ln x\<bar> / 2 ^ 20"
    by (simp add: fpu_ok_def)
  moreover have "\<bar>ln x\<bar> / 2 ^ 20 \<le> ln x / 1000000"
    using l by simp
  ultimately have e: "\<bar>d_log env x - ln x\<bar> \<le> ln x / 1000000" by linarith
  have "lo * (999999 / 1000000) \<le> ln x * (999999 / 1000000)"
    using l by simp
  moreover have "ln x * (1000001 / 1000000) \<le> hi * (1000001 / 1000000)"
    using l by simp
  ultimately show ?thesis using e by (intro conjI; linarith)
qed

lemma LOG_TWO_SQUARED_bounds:
  assumes "fpu_ok env"
  shows "48045 / 100000 \<le> LOG_TWO_SQUARED env \<and> LOG_TWO_SQUARED env \<le> 48046 / 100000"
  using rnd_pos [OF assms, of "0.4804530139182" "0.4804530139182" "0.4804530139182"]
  by (simp add: LOG_TWO_SQUARED_def)

lemma log_2_bounds:
  assumes "fpu_ok env"
  shows "6899 / 10000 \<le> d_log env 2 \<and> d_log env 2 \<le> 7001 / 10000"
  using log_pos [OF assms _ _ ln2_bounds] by simp

lemma quotient_bounds:
  fixes a b :: real
  assumes "alo \<le> a" "a \<le> ahi" "blo \<le> b" "b \<le> bhi" "0 \<le> alo" "0 < blo"
  shows "alo / bhi \<le> a / b \<and> a / b \<le> ahi / blo"
  using assms by (auto intro!: frac_le)

subsection \<open>The derivation for 100 elements at a rate of 0.01\<close>

lemma to_uint64_of_int:
  "0 \<le> i \<Longrightarrow> i < 2 ^ 64 \<Longrightarrow> to_uint64 (of_int i) = Some (word_of_int i)"
  by (simp add: to_uint64_def c_trunc_def)

lemma to_uint32_of_int:
  "0 \<le> i \<Longrightarrow> i < 2 ^ 32 \<Longrightarrow> to_uint32 (of_int i) = Some (word_of_int i)"
  by (simp add: to_uint32_def c_trunc_def)

lemma to_long_of_int:
  "0 \<le> i \<Longrightarrow> i < 2 ^ 63 \<Longrightarrow> to_long (of_int i) = Some (word_of_int i)"
  by (simp add: to_long_def c_trunc_def)

lemma c_ceil_eq: "of_int i - 1 < x \<Longrightarrow> x \<le> of_int i \<Longrightarrow> c_ceil x = of_int i"
  by (simp add: c_ceil_def ceiling_unique)

lemma c_round_eq: "0 \<le> x \<Longrightarrow> of_int i \<le> x + 1 / 2 \<Longrightarrow> x + 1 / 2 < of_int i + 1 \<Longrightarrow> c_round x = of_int i"
  by (simp add: c_round_def floor_unique)

lemma derive_100:
  assumes ok: "fpu_ok env"
    and n: "estimated_elements bf = 100"
    and p: "false_positive_probability bf = 0x3c23d70a"
  shows "calculate_optimal_hashes env bf
    = Inr (bf\<lparr>number_hashes := 7, number_bits := 959, bloom_length := 120\<rparr>)"
proof -
  define lp where "lp = d_log env (5368709 / 536870912)"
  define a where "a = d_mul env (- 100) lp"
  define x where "x = d_div env a (LOG_TWO_SQUARED env)"
  define b where "b = d_mul env (d_log env 2) 959"
  define y where "y = d_div env b 100"
  define z where "z = d_div env 959 8"
  have i: "d_of_int env (- 100) = - 100" "d_of_int env 100 = 100" "d_of_int env 959 = 959"
    using d_of_int_exact [OF ok, of "- 100"] d_of_int_exact [OF ok, of 100]
      d_of_int_exact [OF ok, of 959] by simp_all
  have "- (4606 / 1000) * (1000001 / 1000000) \<le> lp \<and> lp \<le> - (4604 / 1000) * (999999 / 1000000)"
    unfolding lp_def
    by (rule log_neg [OF ok _ _ ln_float_001_bounds [THEN conjunct1]
          ln_float_001_bounds [THEN conjunct2]]) simp_all
  then have lp: "46039 / 100 \<le> - 100 * lp" "- 100 * lp \<le> 46061 / 100"
    by simp_all
  have "46039 / 100 * (999999 / 1000000) \<le> a \<and> a \<le> 46061 / 100 * (1000001 / 1000000)"
    unfolding a_def d_mul_def by (rule rnd_pos [OF ok lp]) simp_all
  then have a: "46038 / 100 \<le> a" "a \<le> 46062 / 100"
    by simp_all
  from LOG_TWO_SQUARED_bounds [OF ok]
  have L: "48045 / 100000 \<le> LOG_TWO_SQUARED env" "LOG_TWO_SQUARED env \<le> 48046 / 100000"
    by simp_all
  from quotient_bounds [OF a L]
  have q: "9582 / 10 \<le> a / LOG_TWO_SQUARED env" "a / LOG_TWO_SQUARED env \<le> 9588 / 10"
    by simp_all
  have "9582 / 10 * (999999 / 1000000) \<le> x \<and> x \<le> 9588 / 10 * (1000001 / 1000000)"
    unfolding x_def d_div_def by (rule rnd_pos [OF ok q]) simp_all
  then have "of_int 959 - 1 < x" "x \<le> of_int 959"
    by simp_all
  then have m: "c_ceil x = of_int 959"
    by (rule c_ceil_eq)
  from log_2_bounds [OF ok]
  have "6899 / 10000 * 959 \<le> d_log env 2 * 959" "d_log env 2 * 959 \<le> 7001 / 10000 * 959"
    by simp_all
  from rnd_pos [OF ok this]
  have b: "661 \<le> b" "b \<le> 672"
    by (simp_all add: b_def d_mul_def)
  then have "661 / 100 \<le> b / 100" "b / 100 \<le> 672 / 100"
    by simp_all
  from rnd_pos [OF ok this]
  have "0 \<le> y" "of_int 7 \<le> y + 1 / 2" "y + 1 / 2 < of_int 7 + 1"
    by (simp_all add: y_def d_div_def)
  then have k: "c_round y = of_int 7"
    by (rule c_round_eq)
  have "(959 / 8 :: real) \<le> 959 / 8" by simp
  from rnd_pos [OF ok this this]
  have "of_int 120 - 1 < z" "z \<le> of_int 120"
    by (simp_all add: z_def d_div_def)
  then have l: "c_ceil z = of_int 120"
    by (rule c_ceil_eq)
  have c: "c_log env (float_val (false_positive_probability bf)) = Some lp"
    by (simp add: p float_val_001 c_log_def lp_def)
  have u: "to_uint64 959 = Some 959" "to_uint32 7 = Some 7" "to_long 120 = Some 120"
    using to_uint64_of_int [of 959] to_uint32_of_int [of 7] to_long_of_int [of 120]
    by simp_all
  show ?thesis
    unfolding calculate_optimal_hashes_def Let_def
    by (simp add: n c i a_def [symmetric] x_def [symmetric] m u b_def [symmetric]
        y_def [symmetric] k z_def [symmetric] l)
qed


subsection \<open>The derivation for 1000 elements at a rate of 0.9\<close>

lemma derive_1000:
  assumes ok: "fpu_ok env"
    and n: "estimated_elements bf = 1000"
    and p: "false_positive_probability bf = 0x3f666666"
  shows "calculate_optimal_hashes env bf
    = Inr (bf\<lparr>number_hashes := 0, number_bits := 220, bloom_length := 28\<rparr>)"
proof -
  define lp where "lp = d_log env (7549747 / 8388608)"
  define a where "a = d_mul env (- 1000) lp"
  define x where "x = d_div env a (LOG_TWO_SQUARED env)"
  define b where "b = d_mul env (d_log env 2) 220"
  define y where "y = d_div env b 1000"
  define z where "z = d_div env 220 8"
  have i: "d_of_int env (- 1000) = - 1000" "d_of_int env 1000 = 1000" "d_of_int env 220 = 220"
    using d_of_int_exact [OF ok, of "- 1000"] d_of_int_exact [OF ok, of 1000]
      d_of_int_exact [OF ok, of 220] by simp_all
  have "- (1055 / 10000) * (1000001 / 1000000) \<le> lp
      \<and> lp \<le> - (1053 / 10000) * (999999 / 1000000)"
    unfolding lp_def
    by (rule log_neg [OF ok _ _ ln_float_09_bounds [THEN conjunct1]
          ln_float_09_bounds [THEN conjunct2]]) simp_all
  then have lp: "10529 / 100 \<le> - 1000 * lp" "- 1000 * lp \<le> 10551 / 100"
    by simp_all
  have "10529 / 100 * (999999 / 1000000) \<le> a \<and> a \<le> 10551 / 100 * (1000001 / 1000000)"
    unfolding a_def d_mul_def by (rule rnd_pos [OF ok lp]) simp_all
  then have a: "10528 / 100 \<le> a" "a \<le> 10552 / 100"
    by simp_all
  from LOG_TWO_SQUARED_bounds [OF ok]
  have L: "48045 / 100000 \<le> LOG_TWO_SQUARED env" "LOG_TWO_SQUARED env \<le> 48046 / 100000"
    by simp_all
  from quotient_bounds [OF a L]
  have q: "2191 / 10 \<le> a / LOG_TWO_SQUARED env" "a / LOG_TWO_SQUARED env \<le> 2197 / 10"
    by simp_all
  have "2191 / 10 * (999999 / 1000000) \<le> x \<and> x \<le> 2197 / 10 * (1000001 / 1000000)"
    unfolding x_def d_div_def by (rule rnd_pos [OF ok q]) simp_all
  then have "of_int 220 - 1 < x" "x \<le> of_int 220"
    by simp_all
  then have m: "c_ceil x = of_int 220"
    by (rule c_ceil_eq)
  from log_2_bounds [OF ok]
  have "6899 / 10000 * 220 \<le> d_log env 2 * 220" "d_log env 2 * 220 \<le> 7001 / 10000 * 220"
    by simp_all
  from rnd_pos [OF ok this]
  have b: "151 \<le> b" "b \<le> 155"
    by (simp_all add: b_def d_mul_def)
  then have "151 / 1000 \<le> b / 1000" "b / 1000 \<le> 155 / 1000"
    by simp_all
  from rnd_pos [OF ok this]
  have "0 \<le> y" "of_int 0 \<le> y + 1 / 2" "y + 1 / 2 < of_int 0 + 1"
    by (simp_all add: y_def d_div_def)
  then have k: "c_round y = of_int 0"
    by (rule c_round_eq)
  have "(220 / 8 :: real) \<le> 220 / 8" by simp
  from rnd_pos [OF ok this this]
  have "of_int 28 - 1 < z" "z \<le> of_int 28"
    by (simp_all add: z_def d_div_def)
  then have l: "c_ceil z = of_int 28"
    by (rule c_ceil_eq)
  have c: "c_log env (float_val (false_positive_probability bf)) = Some lp"
    by (simp add: p float_val_09 c_log_def lp_def)
  have u: "to_uint64 220 = Some 220" "to_uint32 0 = Some 0" "to_long 28 = Some 28"
    using to_uint64_of_int [of 220] to_uint32_of_int [of 0] to_long_of_int [of 28]
    by simp_all
  show ?thesis
    unfolding calculate_optimal_hashes_def Let_def
    by (simp add: n c i a_def [symmetric] x_def [symmetric] m u b_def [symmetric]
        y_def [symmetric] k z_def [symmetric] l)
qed

subsection \<open>Initialisation\<close>

lemma fpu_ok_exact_platform: "fpu_ok exact_platform"
  by (simp add: fpu_ok_def exact_platform_def)

lemma init_alt_100:
  assumes "fpu_ok env"
  shows "bloom_filter_init_alt env bf 100 0x3c23d70a hash_fn
    = Inr (BLOOM_SUCCESS,
           bf\<lparr>estimated_elements := 100, false_positive_probability := 0x3c23d70a,
              number_hashes := 7, number_bits := 959, bloom := replicate 120 0,
              bloom_length := 120, elements_added := 0,
              hash_function := Some (case hash_fn of None \<Rightarrow> md5_hash_default env | Some f \<Rightarrow> f),
              is_on_disk := 0\<rparr>)"
proof -
  have "calculate_optimal_hashes env
      (bf\<lparr>estimated_elements := 100, false_positive_probability := 0x3c23d70a\<rparr>)
    = Inr (bf\<lparr>estimated_elements := 100, false_positive_probability := 0x3c23d70a,
             number_hashes := 7, number_bits := 959, bloom_length := 120\<rparr>)"
    using derive_100 [OF assms, of "bf\<lparr>estimated_elements := 100,
      false_positive_probability := 0x3c23d70a\<rparr>"] by simp
  then show ?thesis
    by (simp add: bloom_filter_init_alt_def float_val_001 f_le_def f_ge_def
        bloom_filter_set_hash_function_def)
qed

lemma init_alt_1000:
  assumes "fpu_ok env"
  shows "bloom_filter_init_alt env bf 1000 0x3f666666 hash_fn
    = Inr (BLOOM_SUCCESS,
           bf\<lparr>estimated_elements := 1000, false_positive_probability := 0x3f666666,
              number_hashes := 0, number_bits := 220, bloom := replicate 28 0,
              bloom_length := 28, elements_added := 0,
              hash_function := Some (case hash_fn of None \<Rightarrow> md5_hash_default env | Some f \<Rightarrow> f),
              is_on_disk := 0\<rparr>)"
proof -
  have "calculate_optimal_hashes env
      (bf\<lparr>estimated_elements := 1000, false_positive_probability := 0x3f666666\<rparr>)
    = Inr (bf\<lparr>estimated_elements := 1000, false_positive_probability := 0x3f666666,
             number_hashes := 0, number_bits := 220, bloom_length := 28\<rparr>)"
    using derive_1000 [OF assms, of "bf\<lparr>estimated_elements := 1000,
      false_positive_probability := 0x3f666666\<rparr>"] by simp
  then show ?thesis
    by (simp add: bloom_filter_init_alt_def float_val_09 f_le_def f_ge_def
        bloom_filter_set_hash_function_def)
qed

lemma float_001_nearest:
  "float_val 0x3c23d70a = Finite (5368709 / 536870912)
    \<and> \<bar>5368709 / 536870912 - 1 / 100 :: real\<bar> \<le> 1 / 2 ^ 31"
  by (simp add: float_val_001)

lemma float_09_nearest:
  "float_val 0x3f666666 = Finite (7549747 / 8388608)
    \<and> \<bar>7549747 / 8388608 - 9 / 10 :: real\<bar> \<le> 1 / 2 ^ 25"
  by (simp add: float_val_09)

text \<open>
  C2. On a platform of the stated accuracy, initialising a filter for 100 elements at the
  float nearest to 0.01 derives 959 bits, 7 hashes and a bit array of 120 bytes, which is
  allocated; the derivation run again on the result gives the same three values.
\<close>

theorem parameters_for_100_at_001:
  assumes "fpu_ok env"
  shows "\<exists>bf'. bloom_filter_init_alt env bf 100 0x3c23d70a hash_fn = Inr (BLOOM_SUCCESS, bf')
    \<and> calculate_optimal_hashes env bf' = Inr bf'
    \<and> number_bits bf' = 959 \<and> number_hashes bf' = 7 \<and> bloom_length bf' = 120
    \<and> length (bloom bf') = 120"
proof -
  let ?bf' = "bf\<lparr>estimated_elements := 100, false_positive_probability := 0x3c23d70a,
              number_hashes := 7, number_bits := 959, bloom := replicate 120 0,
              bloom_length := 120, elements_added := 0,
              hash_function := Some (case hash_fn of None \<Rightarrow> md5_hash_default env | Some f \<Rightarrow> f),
              is_on_disk := 0\<rparr>"
  have "calculate_optimal_hashes env ?bf' = Inr ?bf'"
    using derive_100 [OF assms, of ?bf'] by simp
  with init_alt_100 [OF assms, of bf hash_fn] show ?thesis
    by simp
qed

theorem parameters_for_100_at_001_witness:
  "fpu_ok exact_platform
    \<and> (\<exists>bf'. bloom_filter_init_alt exact_platform fresh_100 100 0x3c23d70a None
               = Inr (BLOOM_SUCCESS, bf')
          \<and> calculate_optimal_hashes exact_platform bf' = Inr bf'
          \<and> number_bits bf' = 959 \<and> number_hashes bf' = 7 \<and> bloom_length bf' = 120
          \<and> length (bloom bf') = 120)"
  using parameters_for_100_at_001 [OF fpu_ok_exact_platform, of fresh_100 None]
    fpu_ok_exact_platform by simp

lemma init_alt_fresh_100:
  "bloom_filter_init_alt exact_platform fresh_100 100 0x3c23d70a None
    = Inr (BLOOM_SUCCESS, fresh_100)"
  by (simp add: init_alt_100 [OF fpu_ok_exact_platform]) (simp add: fresh_100_def)

section \<open>The guard of the initialisation\<close>

lemma init_alt_failure_iff:
  "bloom_filter_init_alt env bf n p hash_fn = Inr (BLOOM_FAILURE, bf')
    \<longleftrightarrow> bf' = bf \<and> (n = 0 \<or> f_le (float_val p) 0 \<or> f_ge (float_val p) 1)"
proof -
  have "\<not> uint n > 2 ^ 64 - 1"
    using uint_lt2p [of n] by simp
  then show ?thesis
    by (auto simp: bloom_filter_init_alt_def split: sum.splits)
qed

lemma init_on_disk_alt_guard:
  assumes "n = 0 \<or> f_le (float_val p) 0 \<or> f_ge (float_val p) 1"
  shows "bloom_filter_init_on_disk_alt env on_disk bf n p filepath hash_fn
    = Inr (BLOOM_FAILURE, bf)"
  using assms by (auto simp: bloom_filter_init_on_disk_alt_def)

text \<open>
  C5. The guard of \<^verbatim>\<open>bloom_filter_init_alt\<close> and \<^verbatim>\<open>bloom_filter_init_on_disk_alt\<close>
  compares with \<^verbatim>\<open><=\<close> and \<^verbatim>\<open>>=\<close>, which are both false of a NaN. A rate that is a NaN
  is outside the interval from 0 to 1, but neither call returns \<^verbatim>\<open>BLOOM_FAILURE\<close>: both go
  on to the derivation, where the NaN reaches the conversion to \<^verbatim>\<open>uint64_t\<close>.
\<close>

theorem init_accepts_nan:
  "float_val 0x7fc00000 = NaN
    \<and> bloom_filter_init_alt env bf 1 0x7fc00000 hash_fn = Inl FloatToInt
    \<and> bloom_filter_init_on_disk_alt env on_disk bf 1 0x7fc00000 filepath hash_fn
        = Inl FloatToInt"
  by (simp add: bloom_filter_init_alt_def bloom_filter_init_on_disk_alt_def float_val_nan
      f_le_def f_ge_def calculate_optimal_hashes_def c_log_def)

section \<open>The estimate of the false positive rate\<close>

subsection \<open>The exponent within the range of an int\<close>

lemma uint_mult_64: "uint ((y :: 64 word) * a) = uint y * uint a mod 2 ^ 64"
  using uint_word_ariths(3) [of y a] by simp

lemma ucast_down_mult:
  "(ucast ((y :: 64 word) * a) :: 32 word) = ucast y * ucast a"
proof -
  have "(ucast (y * a) :: 32 word) = word_of_int (uint y * uint a mod 2 ^ 64)"
    unfolding ucast_eq uint_mult_64 ..
  also have "\<dots> = word_of_int (uint y * uint a)"
    by (rule word_of_int_eq_iff [THEN iffD2]) (simp add: take_bit_eq_mod mod_mod_cancel)
  also have "\<dots> = ucast y * ucast a"
    unfolding ucast_eq by (rule of_int_mult)
  finally show ?thesis .
qed

lemma ucast_up_down: "(ucast (ucast (x :: 32 word) :: 64 word) :: 32 word) = x"
  by (rule ucast_up_ucast_id) (simp add: is_up)

lemma num_low_bits:
  "(ucast ((ucast ((k :: 32 word) * (- 1)) :: 64 word) * a) :: 32 word) = - (k * ucast a)"
  unfolding ucast_down_mult ucast_up_down by simp

lemma uint_ucast_small:
  fixes a :: "64 word"
  assumes "unat a < 2 ^ 31"
  shows "uint (ucast a :: 32 word) = uint a"
proof -
  have "unat a < 4294967296"
    using assms by simp
  then have "int (unat a) < 4294967296"
    by linarith
  then have "int (unat a) < 2 ^ 32"
    by simp
  then have "uint a < 2 ^ 32"
    by (simp only: uint_nat)
  then have t: "take_bit 32 (uint a) = uint a"
    by (simp add: take_bit_int_eq_self_iff)
  have "uint (ucast a :: 32 word) = take_bit LENGTH(32) (uint a)"
    by (rule unsigned_ucast_eq)
  with t show ?thesis by simp
qed

lemma sint_neg_small:
  assumes "p < 2 ^ 31"
  shows "sint (word_of_int (- int p) :: 32 word) = - int p"
proof -
  have "p < 2147483648"
    using assms by simp
  then have "- 2147483648 \<le> - int p \<and> - int p < 2147483648"
    by linarith
  then have "- (2 ^ 31) \<le> - int p \<and> - int p < 2 ^ 31"
    by simp
  then have "signed_take_bit 31 (- int p) = - int p"
    by (simp only: signed_take_bit_int_eq_self_iff)
  moreover have "sint (word_of_int (- int p) :: 32 word) = signed_take_bit (LENGTH(32) - 1) (- int p)"
    by (rule sint_sbintrunc')
  ultimately show ?thesis by simp
qed

lemma num_in_range:
  fixes k :: "32 word" and a :: "64 word"
  assumes "unat k * unat a < 2 ^ 31"
  shows "sint (ucast ((ucast (k * (- 1)) :: 64 word) * a) :: 32 word) = - int (unat k * unat a)"
proof (cases "k = 0")
  case True
  then show ?thesis by simp
next
  case False
  then have "1 \<le> unat k"
    by (simp add: unat_gt_0 Suc_le_eq)
  then have "unat a \<le> unat k * unat a" by simp
  from this assms have "unat a < 2 ^ 31" by (rule le_less_trans)
  then have ua: "uint (ucast a :: 32 word) = uint a"
    by (rule uint_ucast_small)
  have "k * ucast a = (word_of_int (uint k) :: 32 word) * word_of_int (uint (ucast a :: 32 word))"
    by (simp only: word_of_int_uint)
  also have "\<dots> = word_of_int (uint k * uint a)"
    unfolding ua by (rule of_int_mult [symmetric])
  also have "uint k * uint a = int (unat k * unat a)"
    by (simp only: uint_nat of_nat_mult)
  finally have "- (k * ucast a) = - (word_of_int (int (unat k * unat a)) :: 32 word)"
    by (rule arg_cong)
  also have "\<dots> = word_of_int (- int (unat k * unat a))"
    by (rule of_int_minus [symmetric])
  finally have "sint (- (k * ucast a)) = sint (word_of_int (- int (unat k * unat a)) :: 32 word)"
    by (rule arg_cong)
  also have "\<dots> = - int (unat k * unat a)"
    using assms by (rule sint_neg_small)
  finally show ?thesis
    unfolding num_low_bits .
qed


lemma real_uint: "real_of_int (uint w) = real (unat w)"
  by (metis of_int_of_nat_eq uint_nat)

lemma nat_floor_uint: "nat \<lfloor>real_of_int (uint w)\<rfloor> = unat w"
  by (simp only: floor_of_int nat_uint_eq)

text \<open>
  As long as the product of the number of hashes and the counter is below \<open>2\<^sup>3\<^sup>1\<close>, the
  code computes the formula of the specification; on the platform without rounding it
  returns it exactly.
\<close>

lemma false_positive_rate_in_range:
  assumes "number_bits bf \<noteq> 0"
    and "unat (number_hashes bf) * unat (elements_added bf) < 2 ^ 31"
  shows "bloom_filter_current_false_positive_rate exact_platform bf
    = Some (spec_false_positive_rate bf)"
proof -
  have r: "rnd exact_platform = (\<lambda>x. x)" "d_exp exact_platform = exp"
    "f_rnd exact_platform = (\<lambda>x. x)" "d_pow exact_platform = (\<lambda>x y. x ^ nat \<lfloor>y\<rfloor>)"
    by (simp_all add: exact_platform_def)
  have n: "real_of_int (- int (unat (number_hashes bf) * unat (elements_added bf)))
      = - (real (unat (number_hashes bf)) * real (unat (elements_added bf)))"
    by simp
  have fl: "nat \<lfloor>real (unat (number_hashes bf))\<rfloor> = unat (number_hashes bf)"
    by (simp only: floor_of_nat nat_int)
  show ?thesis
    unfolding bloom_filter_current_false_positive_rate_def Let_def num_in_range [OF assms(2)]
      spec_false_positive_rate_def d_div_def d_mul_def d_sub_def d_of_int_def r n
      real_uint mult_1_right fl
    using assms(1) by simp
qed


subsection \<open>A filter without bits\<close>

text \<open>
  With \<^verbatim>\<open>number_bits\<close> 0 the division is by zero. A filter that has been destroyed has
  no hashes either, and its estimate is 1; so is the estimate when the exponent is
  negative.
\<close>

lemma false_positive_rate_no_bits:
  assumes "number_bits bf = 0" "number_hashes bf = 0"
  shows "bloom_filter_current_false_positive_rate env bf = Some 1"
  using assms by (simp add: bloom_filter_current_false_positive_rate_def)

lemma false_positive_rate_destroyed:
  assumes "bloom_filter_destroy bf = Inr (st, bf')"
  shows "bloom_filter_current_false_positive_rate env bf' = Some 1"
proof -
  from assms have "number_bits bf' = 0" "number_hashes bf' = 0"
    by (auto simp: bloom_filter_destroy_def split: if_splits)
  then show ?thesis
    by (rule false_positive_rate_no_bits)
qed

lemma false_positive_rate_no_bits_negative:
  assumes "number_bits bf = 0" "number_hashes bf = 1" "elements_added bf = 1"
  shows "bloom_filter_current_false_positive_rate env bf = Some 1"
  using assms num_low_bits [of 1 1]
  by (simp add: bloom_filter_current_false_positive_rate_def)

subsection \<open>The exponent beyond it\<close>

lemma rel_pos:
  fixes x y lo hi :: real
  assumes "\<bar>y - x\<bar> \<le> \<bar>x\<bar> / 2 ^ 20" "lo \<le> x" "x \<le> hi" "0 \<le> lo"
  shows "lo * (999999 / 1000000) \<le> y \<and> y \<le> hi * (1000001 / 1000000)"
proof -
  have "\<bar>x\<bar> / 2 ^ 20 \<le> x / 1000000"
    using assms by simp
  with assms(1) have e: "\<bar>y - x\<bar> \<le> x / 1000000" by linarith
  have "lo * (999999 / 1000000) \<le> x * (999999 / 1000000)"
    using assms by simp
  moreover have "x * (1000001 / 1000000) \<le> hi * (1000001 / 1000000)"
    using assms by simp
  ultimately show ?thesis using e by (intro conjI; linarith)
qed

lemma rel_neg:
  fixes x y lo hi :: real
  assumes "\<bar>y - x\<bar> \<le> \<bar>x\<bar> / 2 ^ 20" "lo \<le> x" "x \<le> hi" "hi \<le> 0"
  shows "lo * (1000001 / 1000000) \<le> y \<and> y \<le> hi * (999999 / 1000000)"
proof -
  have "\<bar>x\<bar> / 2 ^ 20 \<le> - x / 1000000"
    using assms by simp
  with assms(1) have e: "\<bar>y - x\<bar> \<le> - x / 1000000" by linarith
  have "lo * (1000001 / 1000000) \<le> x * (1000001 / 1000000)"
    using assms by simp
  moreover have "x * (999999 / 1000000) \<le> hi * (999999 / 1000000)"
    using assms by simp
  ultimately show ?thesis using e by (intro conjI; linarith)
qed

lemma num_large_filter:
  "sint (ucast ((ucast (number_hashes large_filter * (- 1)) :: 64 word)
      * elements_added large_filter) :: 32 word) = 2147483643"
  by (simp add: large_filter_def)

lemma exp_05603: "exp (5603 / 10000 :: real) \<le> 177 / 100"
proof -
  have "exp (5603 / 20000 :: real)
      \<le> (\<Sum>m<3. (5603 / 20000) ^ m / fact m) + 2 * (5603 / 20000) ^ 3 / fact 3"
    by (rule exp_upper_sum) simp_all
  also have "\<dots> \<le> 133 / 100"
    by (simp add: lessThan_nat_numeral lessThan_Suc fact_numeral power_divide)
  finally have "exp (5603 / 20000 :: real) \<le> 133 / 100" .
  then have "exp (real 2 * (5603 / 20000)) \<le> 177 / 100"
    by (rule exp_le_power) (simp add: power_divide)
  then show ?thesis by simp
qed

text \<open>
  C8. The exponent is computed in an \<^verbatim>\<open>int\<close>. With 7 hashes and 306783379 inserts the
  product 2147483653 does not fit: the 32 bits kept read as \<open>+2147483643\<close>, the exponent
  is positive and the estimate returned is negative, below \<open>-0.01\<close>, where the formula of
  the specification gives a positive number.
\<close>

theorem false_positive_rate_wraps:
  assumes ok: "fpu_ok env"
  shows "\<exists>r. bloom_filter_current_false_positive_rate env large_filter = Some r
    \<and> r \<le> - (1 / 100) \<and> 0 < spec_false_positive_rate large_filter"
proof -
  define d where "d = d_div env 2147483643 3834023370"
  define e where "e = d_exp env d"
  define s where "s = d_sub env 1 e"
  define w where "w = d_pow env s 7"
  define r where "r = f_rnd env w"
  have i: "rnd env 2147483643 = 2147483643" "rnd env 3834023370 = 3834023370" "rnd env 7 = 7"
    using d_of_int_exact [OF ok, of 2147483643] d_of_int_exact [OF ok, of 3834023370]
      d_of_int_exact [OF ok, of 7]
    by (simp_all add: d_of_int_def)
  have "(56 / 100 :: real) \<le> 2147483643 / 3834023370" "(2147483643 / 3834023370 :: real) \<le> 5602 / 10000"
    by simp_all
  from rnd_pos [OF ok this]
  have d: "5599 / 10000 \<le> d" "d \<le> 5603 / 10000"
    by (simp_all add: d_def d_div_def)
  have "1 + d \<le> exp d" by simp
  with d have el: "15599 / 10000 \<le> exp d" by linarith
  have "exp d \<le> exp (5603 / 10000)" using d by simp
  with exp_05603 have eh: "exp d \<le> 177 / 100" by linarith
  from ok d have "\<bar>d_exp env d - exp d\<bar> \<le> \<bar>exp d\<bar> / 2 ^ 20"
    by (simp add: fpu_ok_def)
  from rel_pos [OF this el eh]
  have e: "155 / 100 \<le> e" "e \<le> 178 / 100"
    by (simp_all add: e_def)
  then have x: "- (78 / 100) \<le> 1 - e" "1 - e \<le> - (55 / 100)"
    by simp_all
  then have "1 / 2 ^ 64 \<le> \<bar>1 - e\<bar> \<and> \<bar>1 - e\<bar> \<le> 2 ^ 64"
    by simp
  with ok have "\<bar>rnd env (1 - e) - (1 - e)\<bar> \<le> \<bar>1 - e\<bar> / 2 ^ 20"
    by (simp add: fpu_ok_def)
  from rel_neg [OF this x]
  have s: "- (79 / 100) \<le> s" "s \<le> - (54 / 100)"
    by (simp_all add: s_def d_sub_def)
  define t where "t = - s"
  have t: "54 / 100 \<le> t" "t \<le> 79 / 100"
    using s by (simp_all add: t_def)
  have s7: "s ^ 7 = - (t ^ 7)"
    by (simp add: t_def)
  have "(54 / 100) ^ 7 \<le> t ^ 7"
    using t by (intro power_mono) simp_all
  moreover have "t ^ 7 \<le> (79 / 100) ^ 7"
    using t by (intro power_mono) simp_all
  ultimately have p7: "- (2 / 10) \<le> s ^ 7" "s ^ 7 \<le> - (13 / 1000)"
    unfolding s7 by (simp_all add: power_divide)
  from s have "1 / 2 \<le> \<bar>s\<bar> \<and> \<bar>s\<bar> \<le> 2 \<and> (7 :: nat) \<le> 32"
    by simp
  with ok have "\<bar>d_pow env s (real 7) - s ^ 7\<bar> \<le> \<bar>s ^ 7\<bar> / 2 ^ 20"
    unfolding fpu_ok_def by blast
  then have "\<bar>w - s ^ 7\<bar> \<le> \<bar>s ^ 7\<bar> / 2 ^ 20"
    by (simp add: w_def)
  from rel_neg [OF this p7]
  have w: "- (21 / 100) \<le> w" "w \<le> - (12 / 1000)"
    by simp_all
  then have "1 / 2 ^ 64 \<le> \<bar>w\<bar> \<and> \<bar>w\<bar> \<le> 2 ^ 64"
    by simp
  with ok have "\<bar>f_rnd env w - w\<bar> \<le> \<bar>w\<bar> / 2 ^ 20"
    by (simp add: fpu_ok_def)
  from rel_neg [OF this w]
  have r: "r \<le> - (1 / 100)"
    by (simp add: r_def)
  have c: "bloom_filter_current_false_positive_rate env large_filter = Some r"
    unfolding bloom_filter_current_false_positive_rate_def num_large_filter Let_def
    by (simp add: large_filter_def d_of_int_def d_mul_def i d_def [symmetric] e_def [symmetric]
        s_def [symmetric] w_def [symmetric] r_def [symmetric])
  have "exp (- (real (unat (number_hashes large_filter)) * real (unat (elements_added large_filter)))
      / real (unat (number_bits large_filter))) < 1"
    by (simp add: large_filter_def)
  then have "0 < spec_false_positive_rate large_filter"
    by (simp add: spec_false_positive_rate_def)
  with c r show ?thesis by blast
qed

theorem false_positive_rate_wraps_witness:
  "fpu_ok exact_platform
    \<and> (\<exists>r. bloom_filter_current_false_positive_rate exact_platform large_filter = Some r
          \<and> r \<le> - (1 / 100) \<and> 0 < spec_false_positive_rate large_filter)"
  using false_positive_rate_wraps [OF fpu_ok_exact_platform] fpu_ok_exact_platform by simp


section \<open>A filter with no hashes\<close>

lemma add_loop_zero: "number_hashes bf = 0 \<Longrightarrow> add_loop bf hs 0 = Inr bf"
  by (subst add_loop.simps) simp

lemma check_loop_zero: "number_hashes bf = 0 \<Longrightarrow> check_loop bf hs 0 = Inr BLOOM_SUCCESS"
  by (subst check_loop.simps) simp

lemma add_string_alt_zero:
  assumes "number_hashes bf = 0" "bloom_filter_add_string_alt bf hs n = Inr (st, bf')"
  shows "st = BLOOM_SUCCESS \<and> bloom bf' = bloom bf \<and> elements_added bf' = elements_added bf + 1"
  using assms
  by (auto simp: bloom_filter_add_string_alt_def add_loop_zero persist_elements_added_def Let_def
      split: if_splits option.splits)

lemma add_string_alt_zero_heap:
  assumes "number_hashes bf = 0" "is_on_disk bf \<noteq> 1"
  shows "bloom_filter_add_string_alt bf hs n
    = Inr (BLOOM_SUCCESS, bf\<lparr>elements_added := elements_added bf + 1\<rparr>)"
  using assms
  by (simp add: bloom_filter_add_string_alt_def add_loop_zero)

lemma check_string_alt_zero:
  "number_hashes bf = 0 \<Longrightarrow> bloom_filter_check_string_alt bf hs n = Inr BLOOM_SUCCESS"
  by (simp add: bloom_filter_check_string_alt_def check_loop_zero)

lemma check_string_zero:
  "number_hashes bf = 0 \<Longrightarrow> hash_function bf = Some f \<Longrightarrow>
   bloom_filter_check_string bf str = Inr BLOOM_SUCCESS"
  by (simp add: bloom_filter_check_string_def bloom_filter_calculate_hashes_def
      check_string_alt_zero)

lemma step_insert_zero:
  assumes "number_hashes bf = 0" "hash_function bf \<noteq> None" "is_on_disk bf \<noteq> 1" "is_insert c"
  shows "step bf c = Inr (bf\<lparr>elements_added := elements_added bf + 1\<rparr>)"
  using assms
  by (cases c)
    (auto simp: bloom_filter_add_string_def bloom_filter_calculate_hashes_def
      add_string_alt_zero_heap)

lemma run_inserts_zero:
  assumes "number_hashes bf = 0" "hash_function bf \<noteq> None" "is_on_disk bf \<noteq> 1"
    "list_all is_insert calls"
  shows "run bf calls = Inr (bf\<lparr>elements_added := elements_added bf + of_nat (length calls)\<rparr>)"
  using assms
proof (induction calls arbitrary: bf)
  case Nil
  then show ?case by simp
next
  case (Cons c cs)
  let ?bf1 = "bf\<lparr>elements_added := elements_added bf + 1\<rparr>"
  from Cons.prems have s: "step bf c = Inr ?bf1"
    by (simp add: step_insert_zero)
  from Cons.prems have "run ?bf1 cs
      = Inr (?bf1\<lparr>elements_added := elements_added ?bf1 + of_nat (length cs)\<rparr>)"
    by (intro Cons.IH) simp_all
  with s show ?case
    by (simp add: add.assoc add.commute)
qed

text \<open>
  C9. The derivation stores the rounded number of hashes as it is. On a filter with 0
  hashes an insert with given hashes that returns has returned \<^verbatim>\<open>BLOOM_SUCCESS\<close>, left
  every byte of the bit array as it was and added one to \<^verbatim>\<open>elements_added\<close>. Such filters
  arise from valid parameters: for 1000 elements at the float nearest to 0.9 the
  initialisation succeeds with 220 bits and 0 hashes, and after any sequence of inserts
  its 28 bytes are still zero while the counter holds the number of inserts.
\<close>

theorem zero_hashes_insert:
  assumes ok: "fpu_ok env"
  shows "(number_hashes bf = 0 \<and> bloom_filter_add_string_alt bf hashes n = Inr (st, bf')
           \<longrightarrow> st = BLOOM_SUCCESS \<and> bloom bf' = bloom bf
               \<and> elements_added bf' = elements_added bf + 1)
    \<and> (\<exists>b. bloom_filter_init_alt env bf0 1000 0x3f666666 hash_fn = Inr (BLOOM_SUCCESS, b)
          \<and> number_hashes b = 0 \<and> number_bits b = 220 \<and> bloom b = replicate 28 0
          \<and> (list_all is_insert calls
               \<longrightarrow> (\<exists>b'. run b calls = Inr b' \<and> bloom b' = replicate 28 0
                      \<and> elements_added b' = of_nat (length calls))))"
proof -
  let ?b = "bf0\<lparr>estimated_elements := 1000, false_positive_probability := 0x3f666666,
              number_hashes := 0, number_bits := 220, bloom := replicate 28 0,
              bloom_length := 28, elements_added := 0,
              hash_function := Some (case hash_fn of None \<Rightarrow> md5_hash_default env | Some f \<Rightarrow> f),
              is_on_disk := 0\<rparr>"
  have "run ?b calls = Inr (?b\<lparr>elements_added := elements_added ?b + of_nat (length calls)\<rparr>)"
    if "list_all is_insert calls"
    using that by (intro run_inserts_zero) simp_all
  then have "list_all is_insert calls
      \<longrightarrow> (\<exists>b'. run ?b calls = Inr b' \<and> bloom b' = replicate 28 0
            \<and> elements_added b' = of_nat (length calls))"
    by simp
  with init_alt_1000 [OF ok, of bf0 hash_fn] add_string_alt_zero [of bf hashes n st bf']
  show ?thesis by auto
qed

theorem zero_hashes_insert_witness:
  "fpu_ok exact_platform
    \<and> number_hashes (fresh_100\<lparr>number_hashes := 0\<rparr>) = 0
    \<and> bloom_filter_add_string_alt (fresh_100\<lparr>number_hashes := 0\<rparr>) [] 0
        = Inr (BLOOM_SUCCESS, fresh_100\<lparr>number_hashes := 0, elements_added := 1\<rparr>)
    \<and> (\<exists>b. bloom_filter_init_alt exact_platform fresh_100 1000 0x3f666666 None
              = Inr (BLOOM_SUCCESS, b)
          \<and> number_hashes b = 0 \<and> number_bits b = 220 \<and> bloom b = replicate 28 0
          \<and> list_all is_insert [AddString ''abc'', AddStringAlt [] 0]
          \<and> (\<exists>b'. run b [AddString ''abc'', AddStringAlt [] 0] = Inr b'
                \<and> bloom b' = replicate 28 0 \<and> elements_added b' = 2))"
proof -
  have a: "bloom_filter_add_string_alt (fresh_100\<lparr>number_hashes := 0\<rparr>) [] 0
        = Inr (BLOOM_SUCCESS, fresh_100\<lparr>number_hashes := 0, elements_added := 1\<rparr>)"
    by (simp add: add_string_alt_zero_heap fresh_100_def)
  have l: "list_all is_insert [AddString ''abc'', AddStringAlt [] 0]" by simp
  from zero_hashes_insert [OF fpu_ok_exact_platform, of "fresh_100\<lparr>number_hashes := 0\<rparr>"
      "[]" 0 BLOOM_SUCCESS "fresh_100\<lparr>number_hashes := 0, elements_added := 1\<rparr>"
      fresh_100 None "[AddString ''abc'', AddStringAlt [] 0]"] a l fpu_ok_exact_platform
  show ?thesis by simp
qed

text \<open>
  C10. On a filter with 0 hashes the lookup with given hashes returns \<^verbatim>\<open>BLOOM_SUCCESS\<close>
  for any hashes and any count, and so does the lookup of any key once a hash function is
  set. In particular the filter just initialised for 1000 elements at a rate of 0.9, with
  nothing inserted and all bits zero, reports every key as present.
\<close>

theorem zero_hashes_lookup:
  assumes ok: "fpu_ok env"
  shows "(number_hashes bf = 0
           \<longrightarrow> bloom_filter_check_string_alt bf hashes n = Inr BLOOM_SUCCESS
               \<and> (hash_function bf \<noteq> None
                    \<longrightarrow> bloom_filter_check_string bf key = Inr BLOOM_SUCCESS))
    \<and> (\<exists>b. bloom_filter_init_alt env bf0 1000 0x3f666666 hash_fn = Inr (BLOOM_SUCCESS, b)
          \<and> number_hashes b = 0 \<and> bloom b = replicate 28 0 \<and> elements_added b = 0
          \<and> bloom_filter_check_string b key = Inr BLOOM_SUCCESS)"
proof -
  let ?b = "bf0\<lparr>estimated_elements := 1000, false_positive_probability := 0x3f666666,
              number_hashes := 0, number_bits := 220, bloom := replicate 28 0,
              bloom_length := 28, elements_added := 0,
              hash_function := Some (case hash_fn of None \<Rightarrow> md5_hash_default env | Some f \<Rightarrow> f),
              is_on_disk := 0\<rparr>"
  have "bloom_filter_check_string ?b key = Inr BLOOM_SUCCESS"
    by (rule check_string_zero) simp_all
  with init_alt_1000 [OF ok, of bf0 hash_fn] check_string_alt_zero [of bf hashes n]
    check_string_zero [of bf _ key]
  show ?thesis by auto
qed

theorem zero_hashes_lookup_witness:
  "fpu_ok exact_platform
    \<and> number_hashes (fresh_100\<lparr>number_hashes := 0\<rparr>) = 0
    \<and> bloom_filter_check_string_alt (fresh_100\<lparr>number_hashes := 0\<rparr>) [] 0 = Inr BLOOM_SUCCESS
    \<and> hash_function (fresh_100\<lparr>number_hashes := 0\<rparr>) \<noteq> None
    \<and> bloom_filter_check_string (fresh_100\<lparr>number_hashes := 0\<rparr>) ''never inserted''
        = Inr BLOOM_SUCCESS
    \<and> (\<exists>b. bloom_filter_init_alt exact_platform fresh_100 1000 0x3f666666 None
              = Inr (BLOOM_SUCCESS, b)
          \<and> number_hashes b = 0 \<and> bloom b = replicate 28 0 \<and> elements_added b = 0
          \<and> bloom_filter_check_string b ''never inserted'' = Inr BLOOM_SUCCESS)"
proof -
  have h: "hash_function (fresh_100\<lparr>number_hashes := 0\<rparr>) \<noteq> None"
    by (simp add: fresh_100_def)
  from zero_hashes_lookup [OF fpu_ok_exact_platform, of "fresh_100\<lparr>number_hashes := 0\<rparr>"
      "[]" 0 "''never inserted''" fresh_100 None] h fpu_ok_exact_platform
  show ?thesis by simp
qed

section \<open>The hexadecimal round trip\<close>

subsection \<open>Numbers printed and read back\<close>

lemma lt16_cases:
  assumes "d < (16 :: nat)"
  shows "d \<in> {0, 1, 2, 3, 4, 5, 6, 7, 8, 9, 10, 11, 12, 13, 14, 15}"
  using assms by simp arith

lemma hex_value_hex_digit: "d < 16 \<Longrightarrow> hex_value (hex_digit d) = Some d"
  by (drule lt16_cases) (auto simp: hex_digit_def hex_value_def)

lemma hex_digit_plain:
  "d < 16 \<Longrightarrow> \<not> isspace (hex_digit d) \<and> hex_digit d \<noteq> CHR ''-'' \<and> hex_digit d \<noteq> CHR ''+''
     \<and> hex_digit d \<noteq> CHR ''x'' \<and> hex_digit d \<noteq> CHR ''X''"
  by (drule lt16_cases) (auto simp: hex_digit_def isspace_def)

lemma hex_digits_map: "list_all (\<lambda>d. d < 16) ds \<Longrightarrow> hex_digits (map hex_digit ds) = ds"
  by (induction ds) (simp_all add: hex_value_hex_digit)

lemma skip_0x_map:
  assumes "list_all (\<lambda>d. d < 16) ds"
  shows "skip_0x (map hex_digit ds) = map hex_digit ds"
proof (cases ds)
  case Nil
  then show ?thesis by (simp add: skip_0x_def)
next
  case (Cons d0 ds1)
  show ?thesis
  proof (cases ds1)
    case Nil
    with Cons show ?thesis by (simp add: skip_0x_def)
  next
    case (Cons d1 ds2)
    with assms \<open>ds = d0 # ds1\<close> have "d1 < 16" by simp
    from hex_digit_plain [OF this] Cons \<open>ds = d0 # ds1\<close> show ?thesis
      by (cases ds2) (simp_all add: skip_0x_def)
  qed
qed

lemma scan_hex_map:
  assumes "list_all (\<lambda>d. d < 16) ds" "ds \<noteq> []"
  shows "scan_hex (map hex_digit ds) = Some (False, from_digits ds)"
proof -
  from assms obtain d ds1 where ds: "ds = d # ds1" and d: "d < 16"
    by (cases ds) auto
  from hex_digit_plain [OF d]
  have "dropWhile isspace (map hex_digit ds) = map hex_digit ds"
    "skip_sign (map hex_digit ds) = (False, map hex_digit ds)"
    by (simp_all add: ds skip_sign_def)
  then show ?thesis
    using assms by (simp add: scan_hex_def skip_0x_map hex_digits_map)
qed

lemma hex_of_nat_digits:
  "\<exists>ds. hex_of_nat v = map hex_digit ds \<and> list_all (\<lambda>d. d < 16) ds \<and> ds \<noteq> []
     \<and> from_digits ds = v"
proof (induction v rule: hex_of_nat.induct)
  case (1 v)
  show ?case
  proof (cases "v < 16")
    case True
    then have "hex_of_nat v = map hex_digit [v]"
      by (subst hex_of_nat.simps) simp
    with True show ?thesis
      by (intro exI [of _ "[v]"]) (simp add: from_digits_def)
  next
    case False
    from "1.IH" [OF False] obtain ds where ds: "hex_of_nat (v div 16) = map hex_digit ds"
      "list_all (\<lambda>d. d < 16) ds" "from_digits ds = v div 16" by blast
    have "hex_of_nat v = map hex_digit (ds @ [v mod 16])"
      using False ds(1) by (subst hex_of_nat.simps) simp
    moreover have "from_digits (ds @ [v mod 16]) = v"
      using ds(3) by (simp add: from_digits_def)
    ultimately show ?thesis
      using ds(2) by (intro exI [of _ "ds @ [v mod 16]"]) simp
  qed
qed

lemma from_digits_zeros: "from_digits (replicate k 0 @ ds) = from_digits ds"
  by (induction k) (simp_all add: from_digits_def)

lemma hex_digit_0: "hex_digit 0 = CHR ''0''"
  by (simp add: hex_digit_def)

lemma sprintf_0x_digits:
  "\<exists>ds. sprintf_0x w v = map hex_digit ds \<and> list_all (\<lambda>d. d < 16) ds \<and> ds \<noteq> []
     \<and> from_digits ds = v"
proof -
  from hex_of_nat_digits [of v] obtain ds where ds: "hex_of_nat v = map hex_digit ds"
    "list_all (\<lambda>d. d < 16) ds" "ds \<noteq> []" "from_digits ds = v" by blast
  let ?k = "w - length (hex_of_nat v)"
  have "sprintf_0x w v = map hex_digit (replicate ?k 0 @ ds)"
    by (simp add: sprintf_0x_def ds(1) hex_digit_0)
  moreover have "list_all (\<lambda>d. d < 16) (replicate ?k 0 @ ds)"
    using ds(2) by (auto simp: list_all_iff)
  ultimately show ?thesis
    using ds(3,4) from_digits_zeros [of ?k ds]
    by (intro exI [of _ "replicate ?k 0 @ ds"]) simp
qed

lemma scan_hex_sprintf: "scan_hex (sprintf_0x w v) = Some (False, v)"
proof -
  from sprintf_0x_digits [of w v] obtain ds where "sprintf_0x w v = map hex_digit ds"
    "list_all (\<lambda>d. d < 16) ds" "ds \<noteq> []" "from_digits ds = v" by blast
  then show ?thesis
    by (simp add: scan_hex_map)
qed

lemma hex_of_nat_length: "v < 16 ^ w \<Longrightarrow> 0 < w \<Longrightarrow> length (hex_of_nat v) \<le> w"
proof (induction v arbitrary: w rule: hex_of_nat.induct)
  case (1 v)
  show ?case
  proof (cases "v < 16")
    case True
    with "1.prems" show ?thesis
      by (subst hex_of_nat.simps) simp
  next
    case False
    with "1.prems" obtain w1 where w: "w = Suc w1"
      by (cases w) auto
    with False "1.prems" have "0 < w1"
      by (cases w1) auto
    moreover from "1.prems" w have "v div 16 < 16 ^ w1"
      by (simp add: less_mult_imp_div_less mult.commute)
    ultimately have "length (hex_of_nat (v div 16)) \<le> w1"
      by (rule "1.IH" [OF False, rotated])
    with False w show ?thesis
      by (subst hex_of_nat.simps) simp
  qed
qed

lemma sprintf_0x_length: "v < 16 ^ w \<Longrightarrow> 0 < w \<Longrightarrow> length (sprintf_0x w v) = w"
  using hex_of_nat_length [of v w] by (simp add: sprintf_0x_def)

lemma strtoull_16_sprintf: "strtoull_16 (sprintf_0x w (unat x)) = x"
proof -
  have "unat x < 2 ^ 64"
    using unsigned_less [of x, where 'a = nat] by simp
  then have "\<not> 2 ^ 64 \<le> unat x"
    by simp
  then show ?thesis
    by (simp add: strtoull_16_def scan_hex_sprintf)
qed

lemma sscanf_x_sprintf: "sscanf_x (sprintf_0x w (unat x)) = Some x"
  by (simp add: sscanf_x_def scan_hex_sprintf)

lemma sscanf_2hhx_sprintf: "sscanf_2hhx (sprintf_0x 2 (unat (b :: 8 word)) @ rest) = Some b"
proof -
  let ?s = "sprintf_0x 2 (unat b)"
  have "unat b < 16 ^ 2"
    using unsigned_less [of b, where 'a = nat] by simp
  then have l: "length ?s = 2"
    by (simp add: sprintf_0x_length)
  from sprintf_0x_digits [of 2 "unat b"] obtain d ds where "?s = hex_digit d # map hex_digit ds"
    "d < 16" by (auto simp: neq_Nil_conv)
  with hex_digit_plain [of d] have "dropWhile isspace (?s @ rest) = ?s @ rest"
    by simp
  with l show ?thesis
    by (simp add: sscanf_2hhx_def scan_hex_sprintf)
qed


subsection \<open>Export and import\<close>

lemma hex2_length: "length (sprintf_0x 2 (unat (b :: 8 word))) = 2"
proof -
  have "unat b < 16 ^ 2"
    using unsigned_less [of b, where 'a = nat] by simp
  then show ?thesis by (simp add: sprintf_0x_length)
qed

lemma concat_hex2_length:
  "length (concat (map (\<lambda>b :: 8 word. sprintf_0x 2 (unat b)) bs)) = 2 * length bs"
  by (induction bs) (simp_all add: hex2_length)

lemma drop_concat_hex2:
  "drop (i * 2) (concat (map (\<lambda>b :: 8 word. sprintf_0x 2 (unat b)) bs))
    = concat (map (\<lambda>b. sprintf_0x 2 (unat b)) (drop i bs))"
proof (induction bs arbitrary: i)
  case Nil
  then show ?case by simp
next
  case (Cons b bs)
  show ?case
  proof (cases i)
    case 0
    then show ?thesis by simp
  next
    case (Suc j)
    with Cons.IH [of j] show ?thesis
      by (simp add: hex2_length)
  qed
qed

lemma export_loop_result:
  assumes "unat (bloom_length bf) \<le> length (bloom bf)"
  shows "export_loop bf i
    = Inr (concat (map (\<lambda>b. sprintf_0x 2 (unat b))
             (drop i (take (unat (bloom_length bf)) (bloom bf)))))"
  using assms
proof (induction bf i rule: export_loop.induct)
  case (1 bf i)
  let ?bs = "take (unat (bloom_length bf)) (bloom bf)"
  show ?case
  proof (cases "i < unat (bloom_length bf)")
    case False
    then show ?thesis
      by (subst export_loop.simps) simp
  next
    case True
    with "1.prems" have nl: "\<not> length (bloom bf) \<le> i" and il: "i < length ?bs"
      by simp_all
    from il have "drop i ?bs = ?bs ! i # drop (Suc i) ?bs"
      by (rule Cons_nth_drop_Suc [symmetric])
    moreover have "?bs ! i = bloom bf ! i"
      using True by simp
    ultimately have d: "drop i ?bs = bloom bf ! i # drop (Suc i) ?bs"
      by simp
    from "1.IH" [OF True nl "1.prems"] True nl show ?thesis
      by (subst export_loop.simps) (simp add: d)
  qed
qed

lemma export_loop_short:
  "length (bloom bf) < unat (bloom_length bf) \<Longrightarrow> i \<le> length (bloom bf) \<Longrightarrow>
   export_loop bf i = Inl OutOfBounds"
proof (induction bf i rule: export_loop.induct)
  case (1 bf i)
  then have t: "i < unat (bloom_length bf)" by simp
  show ?case
  proof (cases "length (bloom bf) \<le> i")
    case True
    with t show ?thesis by (subst export_loop.simps) simp
  next
    case False
    with "1.IH" [OF t False] "1.prems" t show ?thesis
      by (subst export_loop.simps) simp
  qed
qed

lemma export_Inr_allocated:
  assumes "bloom_filter_export_hex_string bf = Inr hex"
  shows "unat (bloom_length bf) \<le> length (bloom bf)"
proof (rule ccontr)
  assume "\<not> ?thesis"
  then have "export_loop bf 0 = Inl OutOfBounds"
    by (intro export_loop_short) simp_all
  with assms show False
    by (simp add: bloom_filter_export_hex_string_def)
qed

lemma export_result:
  assumes "unat (bloom_length bf) \<le> length (bloom bf)"
  shows "bloom_filter_export_hex_string bf
    = Inr (concat (map (\<lambda>b. sprintf_0x 2 (unat b)) (take (unat (bloom_length bf)) (bloom bf)))
           @ sprintf_0x 16 (unat (estimated_elements bf))
           @ sprintf_0x 16 (unat (elements_added bf))
           @ sprintf_0x 8 (unat (false_positive_probability bf)))"
  by (simp add: bloom_filter_export_hex_string_def export_loop_result [OF assms])

lemma import_loop_result:
  assumes "hex = concat (map (\<lambda>b. sprintf_0x 2 (unat b)) bytes) @ rest"
    and "length bytes = unat (bloom_length bf)"
    and "length (bloom bf) = length bytes"
  shows "import_loop bf hex i = Inr (bf\<lparr>bloom := take i (bloom bf) @ drop i bytes\<rparr>)"
  using assms
proof (induction bf hex i rule: import_loop.induct)
  case (1 bf hex i)
  show ?case
  proof (cases "i < unat (bloom_length bf)")
    case False
    with "1.prems" show ?thesis
      by (subst import_loop.simps) simp
  next
    case True
    with "1.prems" have il: "i < length bytes" by simp
    have lh: "length hex = 2 * length bytes + length rest"
      by (simp add: "1.prems"(1) concat_hex2_length)
    with il "1.prems" have g: "\<not> (length hex < i * 2 \<or> length (bloom bf) \<le> i)"
      by simp
    have "drop (i * 2) hex
        = concat (map (\<lambda>b. sprintf_0x 2 (unat b)) (drop i bytes)) @ rest"
      using il by (simp add: "1.prems"(1) drop_concat_hex2 concat_hex2_length)
    moreover have "drop i bytes = bytes ! i # drop (Suc i) bytes"
      using il by (rule Cons_nth_drop_Suc [symmetric])
    ultimately have e: "drop (i * 2) hex
        = sprintf_0x 2 (unat (bytes ! i))
          @ (concat (map (\<lambda>b. sprintf_0x 2 (unat b)) (drop (Suc i) bytes)) @ rest)"
      by simp
    have sc: "sscanf_2hhx (drop (i * 2) hex) = Some (bytes ! i)"
      unfolding e by (rule sscanf_2hhx_sprintf)
    note sc
    moreover
    let ?bf1 = "bf\<lparr>bloom := (bloom bf)[i := bytes ! i]\<rparr>"
    have "import_loop ?bf1 hex (Suc i)
        = Inr (?bf1\<lparr>bloom := take (Suc i) (bloom ?bf1) @ drop (Suc i) bytes\<rparr>)"
      using "1.prems" by (intro "1.IH"(2) [OF True g sc]) simp_all
    moreover have "take (Suc i) ((bloom bf)[i := bytes ! i]) @ drop (Suc i) bytes
        = take i (bloom bf) @ drop i bytes"
      using il "1.prems"(3)
      by (simp add: take_Suc_conv_app_nth Cons_nth_drop_Suc)
    ultimately show ?thesis
      using True g by (subst import_loop.simps) simp
  qed
qed

lemma calculate_optimal_hashes_fields:
  assumes "estimated_elements a = estimated_elements b"
    and "false_positive_probability a = false_positive_probability b"
    and "calculate_optimal_hashes env b = Inr b'"
  shows "calculate_optimal_hashes env a
    = Inr (a\<lparr>number_hashes := number_hashes b', number_bits := number_bits b',
             bloom_length := bloom_length b'\<rparr>)"
  using assms(3) unfolding calculate_optimal_hashes_def Let_def assms(1,2)
  by (auto split: if_splits option.splits)

text \<open>
  The derived fields of a filter are those of its two parameters after an initialisation,
  and stay so over every call but the destruction.
\<close>

lemma calculate_optimal_hashes_same:
  assumes "calculate_optimal_hashes env b = Inr b"
    and "estimated_elements a = estimated_elements b"
    and "false_positive_probability a = false_positive_probability b"
    and "number_hashes a = number_hashes b" "number_bits a = number_bits b"
    and "bloom_length a = bloom_length b"
  shows "calculate_optimal_hashes env a = Inr a"
proof -
  have "a\<lparr>number_hashes := number_hashes a, number_bits := number_bits a,
      bloom_length := bloom_length a\<rparr> = a"
    by simp
  with calculate_optimal_hashes_fields [OF assms(2,3,1)] assms(4-6) show ?thesis
    by simp
qed

lemma calculate_optimal_hashes_idem:
  assumes "calculate_optimal_hashes env b = Inr b'"
  shows "calculate_optimal_hashes env b' = Inr b'"
proof -
  have e: "estimated_elements b' = estimated_elements b"
    "false_positive_probability b' = false_positive_probability b"
    using assms unfolding calculate_optimal_hashes_def Let_def
    by (auto split: if_splits option.splits)
  from calculate_optimal_hashes_fields [OF e assms] show ?thesis
    by simp
qed

lemma init_alt_derived:
  assumes "bloom_filter_init_alt env bf n p hash_fn = Inr (BLOOM_SUCCESS, bf')"
  shows "calculate_optimal_hashes env bf' = Inr bf'"
proof -
  from assms obtain bf1 where
    c: "calculate_optimal_hashes env
          (bf\<lparr>estimated_elements := n, false_positive_probability := p\<rparr>) = Inr bf1"
    and b: "bf' = (bloom_filter_set_hash_function env
                    (bf1\<lparr>bloom := replicate (unat (bloom_length bf1)) 0, elements_added := 0\<rparr>)
                    hash_fn)\<lparr>is_on_disk := 0\<rparr>"
    by (auto simp: bloom_filter_init_alt_def split: if_splits sum.splits)
  from calculate_optimal_hashes_idem [OF c] show ?thesis
    by (rule calculate_optimal_hashes_same) (simp_all add: b bloom_filter_set_hash_function_def)
qed

lemma step_shape:
  assumes "step bf c = Inr bf'" "c \<noteq> Destroy"
  shows "\<exists>X Y Z. bf' = bf\<lparr>bloom := X, elements_added := Y, filepointer := Z\<rparr>"
proof -
  have same: "\<exists>X Y Z. bf = bf\<lparr>bloom := X, elements_added := Y, filepointer := Z\<rparr>"
    by (intro exI [of _ "bloom bf"] exI [of _ "elements_added bf"] exI [of _ "filepointer bf"])
      simp
  have alt: "\<exists>X Y Z. b = bf\<lparr>bloom := X, elements_added := Y, filepointer := Z\<rparr>"
    if "bloom_filter_add_string_alt bf hs n = Inr (st, b)" for hs n st b
  proof (cases "n < number_hashes bf")
    case True
    with that same show ?thesis
      by (simp add: bloom_filter_add_string_alt_def)
  next
    case False
    with that obtain bf1 where a: "add_loop bf hs 0 = Inr bf1"
      by (auto simp: bloom_filter_add_string_alt_def split: sum.splits)
    from add_loop_fields [OF a] have f: "bf1 = bf\<lparr>bloom := bloom bf1\<rparr>" by simp
    from that False a have "b = bf1\<lparr>elements_added := elements_added bf1 + 1\<rparr>
        \<or> b = bf1\<lparr>elements_added := elements_added bf1 + 1,
                  filepointer := Some (Trailer (elements_added bf1 + 1))\<rparr>"
      by (auto simp: bloom_filter_add_string_alt_def persist_elements_added_def Let_def
          split: if_splits option.splits)
    then show ?thesis
    proof
      assume "b = bf1\<lparr>elements_added := elements_added bf1 + 1\<rparr>"
      then have "b = bf\<lparr>bloom := bloom bf1, elements_added := elements_added bf1 + 1,
          filepointer := filepointer bf\<rparr>"
        by (subst (asm) f) simp
      then show ?thesis by blast
    next
      assume "b = bf1\<lparr>elements_added := elements_added bf1 + 1,
                  filepointer := Some (Trailer (elements_added bf1 + 1))\<rparr>"
      then have "b = bf\<lparr>bloom := bloom bf1, elements_added := elements_added bf1 + 1,
          filepointer := Some (Trailer (elements_added bf1 + 1))\<rparr>"
        by (subst (asm) f) simp
      then show ?thesis by blast
    qed
  qed
  show ?thesis
  proof (cases c)
    case (AddString str)
    with assms(1) alt show ?thesis
      by (auto simp: bloom_filter_add_string_def bloom_filter_calculate_hashes_def
          split: option.splits dest!: map_sum_snd_Inr)
  next
    case (AddStringAlt hs n)
    with assms(1) alt show ?thesis
      by (auto dest!: map_sum_snd_Inr)
  next
    case Clear
    with assms(1) obtain st where cl: "bloom_filter_clear bf = Inr (st, bf')"
      by (auto dest!: map_sum_snd_Inr)
    from cl clear_result [OF clear_Inr_allocated [OF cl]]
    have "bf' = bf\<lparr>bloom := replicate (nat (sint (bloom_length bf))) 0
                 @ drop (nat (sint (bloom_length bf))) (bloom bf),
             elements_added := 0, filepointer := filepointer bf\<rparr>"
      by auto
    then show ?thesis by blast
  next
    case Destroy
    with assms(2) show ?thesis by simp
  qed (use assms(1) same in \<open>auto dest!: map_sum_const_Inr\<close>)
qed

lemma step_derived:
  assumes "step bf c = Inr bf'" "c \<noteq> Destroy" "calculate_optimal_hashes env bf = Inr bf"
  shows "calculate_optimal_hashes env bf' = Inr bf'"
proof -
  from step_shape [OF assms(1,2)] obtain X Y Z where
    "bf' = bf\<lparr>bloom := X, elements_added := Y, filepointer := Z\<rparr>" by blast
  then show ?thesis
    by (intro calculate_optimal_hashes_same [OF assms(3)]) simp_all
qed


text \<open>
  C3. Take a filter whose derived fields are those the derivation gives for its
  \<^verbatim>\<open>estimated_elements\<close> and \<^verbatim>\<open>false_positive_probability\<close>, as they are after every
  initialisation and import. If \<^verbatim>\<open>bloom_filter_export_hex_string\<close> returns a string, then
  \<^verbatim>\<open>bloom_filter_import_hex_string_alt\<close> of that string, into any filter structure and with
  any hash function, returns \<^verbatim>\<open>BLOOM_SUCCESS\<close> with a bit array equal byte for byte to the
  \<^verbatim>\<open>bloom_length\<close> bytes of the original, the same two counters, the same bit pattern of
  the rate and the same derived fields.
\<close>

theorem hex_round_trip:
  assumes derived: "calculate_optimal_hashes env bf = Inr bf"
    and export: "bloom_filter_export_hex_string bf = Inr hex"
  shows "\<exists>bf'. bloom_filter_import_hex_string_alt env bf0 hex hash_fn = Inr (BLOOM_SUCCESS, bf')
    \<and> bloom bf' = take (unat (bloom_length bf)) (bloom bf)
    \<and> estimated_elements bf' = estimated_elements bf
    \<and> elements_added bf' = elements_added bf
    \<and> false_positive_probability bf' = false_positive_probability bf
    \<and> number_bits bf' = number_bits bf \<and> number_hashes bf' = number_hashes bf
    \<and> bloom_length bf' = bloom_length bf"
proof -
  define bytes where "bytes = take (unat (bloom_length bf)) (bloom bf)"
  define B where "B = concat (map (\<lambda>b. sprintf_0x 2 (unat b)) bytes)"
  define E where "E = sprintf_0x 16 (unat (estimated_elements bf))"
  define I where "I = sprintf_0x 16 (unat (elements_added bf))"
  define F where "F = sprintf_0x 8 (unat (false_positive_probability bf))"
  from export_Inr_allocated [OF export] have al: "unat (bloom_length bf) \<le> length (bloom bf)" .
  then have lb: "length bytes = unat (bloom_length bf)"
    by (simp add: bytes_def)
  from export export_result [OF al] have hex: "hex = B @ E @ I @ F"
    by (simp add: B_def E_def I_def F_def bytes_def)
  have "unat (estimated_elements bf) < 16 ^ 16" "unat (elements_added bf) < 16 ^ 16"
    "unat (false_positive_probability bf) < 16 ^ 8"
    using unsigned_less [of "estimated_elements bf", where 'a = nat]
      unsigned_less [of "elements_added bf", where 'a = nat]
      unsigned_less [of "false_positive_probability bf", where 'a = nat]
    by simp_all
  then have l: "length E = 16" "length I = 16" "length F = 8"
    by (simp_all add: E_def I_def F_def sprintf_0x_length)
  have lB: "length B = 2 * length bytes"
    by (simp add: B_def concat_hex2_length)
  have len: "length hex = 2 * length bytes + 40"
    by (simp add: hex l lB)
  have parts: "take 8 (drop (length hex - 8) hex) = F"
    "take 16 (drop (length hex - 24) hex) = I"
    "take 16 (drop (length hex - 40) hex) = E"
    by (simp_all add: len) (simp_all add: hex l lB)
  have g: "\<not> length hex mod 2 \<noteq> 0" "\<not> length hex < 40"
    by (simp_all add: len)
  let ?b1 = "bloom_filter_set_hash_function env
      (bf0\<lparr>estimated_elements := strtoull_16 E, elements_added := strtoull_16 I,
           false_positive_probability := false_positive_probability bf\<rparr>) hash_fn"
  have f1: "estimated_elements ?b1 = estimated_elements bf"
    "false_positive_probability ?b1 = false_positive_probability bf"
    "elements_added ?b1 = elements_added bf"
    by (simp_all add: bloom_filter_set_hash_function_def E_def I_def strtoull_16_sprintf)
  let ?b2 = "?b1\<lparr>number_hashes := number_hashes bf, number_bits := number_bits bf,
      bloom_length := bloom_length bf\<rparr>"
  from calculate_optimal_hashes_fields [OF f1(1,2) derived]
  have c: "calculate_optimal_hashes env ?b1 = Inr ?b2" .
  let ?b3 = "?b2\<lparr>bloom := replicate (unat (bloom_length ?b2)) 0, is_on_disk := 0\<rparr>"
  have "import_loop ?b3 hex 0 = Inr (?b3\<lparr>bloom := take 0 (bloom ?b3) @ drop 0 bytes\<rparr>)"
    by (rule import_loop_result [where rest = "E @ I @ F"])
      (simp_all add: hex B_def lb)
  then have i: "import_loop ?b3 hex 0 = Inr (?b3\<lparr>bloom := bytes\<rparr>)"
    by simp
  have "bloom_filter_import_hex_string_alt env bf0 hex hash_fn
      = Inr (BLOOM_SUCCESS, ?b3\<lparr>bloom := bytes\<rparr>)"
    unfolding bloom_filter_import_hex_string_alt_def Let_def parts
    using g c i by (simp add: F_def sscanf_x_sprintf)
  moreover have "estimated_elements (?b3\<lparr>bloom := bytes\<rparr>) = estimated_elements bf"
    "elements_added (?b3\<lparr>bloom := bytes\<rparr>) = elements_added bf"
    "false_positive_probability (?b3\<lparr>bloom := bytes\<rparr>) = false_positive_probability bf"
    using f1 by simp_all
  ultimately show ?thesis
    by (simp add: bytes_def)
qed

lemma export_total:
  assumes "unat (bloom_length bf) \<le> length (bloom bf)"
  shows "\<exists>hex. bloom_filter_export_hex_string bf = Inr hex"
  by (simp add: export_result [OF assms])

lemma derived_used_100: "calculate_optimal_hashes exact_platform used_100 = Inr used_100"
  using derive_100 [OF fpu_ok_exact_platform, of used_100]
  by (simp add: used_100_def fresh_100_def)

theorem hex_round_trip_witness:
  "calculate_optimal_hashes exact_platform used_100 = Inr used_100
    \<and> (\<exists>hex bf'. bloom_filter_export_hex_string used_100 = Inr hex
          \<and> bloom_filter_import_hex_string_alt exact_platform fresh_100 hex None
              = Inr (BLOOM_SUCCESS, bf')
          \<and> bloom bf' = bloom used_100
          \<and> estimated_elements bf' = 100 \<and> elements_added bf' = 1
          \<and> false_positive_probability bf' = 0x3c23d70a
          \<and> number_bits bf' = 959 \<and> number_hashes bf' = 7 \<and> bloom_length bf' = 120)"
proof -
  have "unat (bloom_length used_100) \<le> length (bloom used_100)"
    by (simp add: used_100_def fresh_100_def)
  from export_total [OF this] obtain hex where
    e: "bloom_filter_export_hex_string used_100 = Inr hex" by blast
  from hex_round_trip [OF derived_used_100 e, of fresh_100 None] e derived_used_100
  show ?thesis
    by (auto simp: used_100_def fresh_100_def)
qed

section \<open>The insert counter\<close>

subsection \<open>Over the calls on a filter\<close>










subsection \<open>Over the functions that set a filter up\<close>






subsection \<open>The import of a string\<close>






subsection \<open>The counter over the life of a filter\<close>




end
